theory Spec2Isabelle
  imports
    Main
    "HOL-Library.AList"
    "HOL-Library.Char_ord"
    "HOL-Library.List_Lexorder"
    "HOL-Library.Multiset"
begin

section \<open>Python values and exceptions\<close>

text \<open>
  The exceptions the modelled code can raise.  A function that may raise returns
  \<open>py_error + 'a\<close>, with \<open>Inl\<close> for the exception.
\<close>

datatype py_error = KeyError | IndexError | TypeError | AttributeError | ValueError


text \<open>
  Python values as the records hold them: a raw record is a JSON-decoded mapping, so a
  \<open>PDict\<close> whose keys are \<open>PStr\<close>, each key once.  Strings are lists of characters with
  code points below 256.  Floats are not modelled, except for \<open>PNaN\<close>, the missing-value
  marker that the data-frame engine writes into a cell (the object \<open>numpy.nan\<close>); it does
  not occur in raw records.
\<close>

datatype pyval =
    PNone
  | PNaN
  | PBool bool
  | PInt int
  | PStr string
  | PList "pyval list"
  | PDict "(pyval \<times> pyval) list"

text \<open>Sequencing of computations that may raise: the first exception ends the run.\<close>

definition then_do :: "py_error + 'a \<Rightarrow> ('a \<Rightarrow> py_error + 'b) \<Rightarrow> py_error + 'b" where
  "then_do r f = (case r of Inl e \<Rightarrow> Inl e | Inr v \<Rightarrow> f v)"

section \<open>Python built-ins used by the extractors\<close>

text \<open>\<open>d[k]\<close> for a string key \<open>k\<close>: only a dict can be subscripted by a string.\<close>

fun getitem :: "pyval \<Rightarrow> string \<Rightarrow> py_error + pyval" where
  "getitem (PDict kv) k = (case map_of kv (PStr k) of None \<Rightarrow> Inl KeyError | Some v \<Rightarrow> Inr v)"
| "getitem _ k = Inl TypeError"

text \<open>\<open>s.split(sep)\<close> for a one-character separator: never empty, \<open>"".split("-") == [""]\<close>.\<close>

fun str_split :: "char \<Rightarrow> string \<Rightarrow> string list" where
  "str_split sep [] = [[]]"
| "str_split sep (c # cs) =
     (if c = sep then [] # str_split sep cs
      else (case str_split sep cs of [] \<Rightarrow> [[c]] | w # ws \<Rightarrow> (c # w) # ws))"

text \<open>\<open>v.split("-")\<close>: only strings have the method.\<close>

fun py_split_dash :: "pyval \<Rightarrow> py_error + string list" where
  "py_split_dash (PStr s) = Inr (str_split CHR ''-'' s)"
| "py_split_dash _ = Inl AttributeError"

text \<open>\<open>xs[i]\<close> for an index \<open>i \<ge> 0\<close>.\<close>

definition py_index :: "'a list \<Rightarrow> nat \<Rightarrow> py_error + 'a" where
  "py_index xs i = (if i < length xs then Inr (xs ! i) else Inl IndexError)"

text \<open>\<open>sep.join(xs)\<close>.\<close>

fun str_join :: "string \<Rightarrow> string list \<Rightarrow> string" where
  "str_join sep [] = []"
| "str_join sep [x] = x"
| "str_join sep (x # y # ys) = x @ sep @ str_join sep (y # ys)"

text \<open>
  \<open>s.split()\<close> with no argument: the maximal runs of characters that are not white space.
  White space is what \<open>str.isspace\<close> accepts below code point 256.
\<close>

definition is_space :: "char \<Rightarrow> bool" where
  "is_space c = (c \<in> set [CHR 0x09, CHR 0x0A, CHR 0x0B, CHR 0x0C, CHR 0x0D, CHR 0x1C, CHR 0x1D,
                           CHR 0x1E, CHR 0x1F, CHR 0x20, CHR 0x85, CHR 0xA0])"

function str_split_ws :: "string \<Rightarrow> string list" where
  "str_split_ws [] = []"
| "str_split_ws (c # cs) =
     (if is_space c then str_split_ws cs
      else takeWhile (\<lambda>d. \<not> is_space d) (c # cs)
             # str_split_ws (dropWhile (\<lambda>d. \<not> is_space d) cs))"
  by pat_completeness auto
termination
  by (relation "measure length") (auto simp: less_Suc_eq_le length_dropWhile_le)

fun py_split_ws :: "pyval \<Rightarrow> py_error + string list" where
  "py_split_ws (PStr s) = Inr (str_split_ws s)"
| "py_split_ws _ = Inl AttributeError"

text \<open>\<open>len(v)\<close> and iteration over \<open>v\<close> (a string yields its characters, a dict its keys).\<close>

fun py_len :: "pyval \<Rightarrow> py_error + nat" where
  "py_len (PList xs) = Inr (length xs)"
| "py_len (PStr s) = Inr (length s)"
| "py_len (PDict kv) = Inr (length kv)"
| "py_len _ = Inl TypeError"

fun py_iter :: "pyval \<Rightarrow> py_error + pyval list" where
  "py_iter (PList xs) = Inr xs"
| "py_iter (PStr s) = Inr (map (\<lambda>c. PStr [c]) s)"
| "py_iter (PDict kv) = Inr (map fst kv)"
| "py_iter _ = Inl TypeError"

text \<open>
  Sets.  Lists and dicts are unhashable; \<open>True == 1\<close> and \<open>False == 0\<close>, so a set holds a
  Boolean and the integer it equals once.  \<open>py_set xs\<close> is \<open>set(xs)\<close> as the list of its
  elements, each represented up to that equality by \<open>py_norm\<close>; Python leaves the order of
  a set open, and everything below uses a set only through its length, its sorted list or
  another set.  The missing cells of a column are taken to be one object, \<open>numpy.nan\<close>,
  which a set holds once; an engine that makes a floating point object of its own for
  every missing cell counts each of them.
\<close>

fun py_hashable :: "pyval \<Rightarrow> bool" where
  "py_hashable (PList xs) = False"
| "py_hashable (PDict kv) = False"
| "py_hashable _ = True"

fun py_norm :: "pyval \<Rightarrow> pyval" where
  "py_norm (PBool b) = PInt (if b then 1 else 0)"
| "py_norm v = v"

definition py_set :: "pyval list \<Rightarrow> py_error + pyval list" where
  "py_set xs =
     (if list_all py_hashable xs then Inr (remdups (map py_norm xs)) else Inl TypeError)"

text \<open>
  \<open>sorted(xs)\<close> for the elements of a set without \<open>None\<close>: strings compare with strings and
  integers with integers; comparing a string with an integer raises TypeError; a list of
  at most one element is not compared at all.
\<close>

fun is_str :: "pyval \<Rightarrow> bool" where
  "is_str (PStr s) = True"
| "is_str _ = False"

fun is_int :: "pyval \<Rightarrow> bool" where
  "is_int (PInt i) = True"
| "is_int (PBool b) = True"
| "is_int _ = False"

fun str_of :: "pyval \<Rightarrow> string" where
  "str_of (PStr s) = s"
| "str_of _ = []"

fun int_of :: "pyval \<Rightarrow> int" where
  "int_of (PInt i) = i"
| "int_of (PBool b) = (if b then 1 else 0)"
| "int_of _ = 0"

definition py_sorted :: "pyval list \<Rightarrow> py_error + pyval list" where
  "py_sorted xs =
     (if list_all is_str xs then Inr (map PStr (sort (map str_of xs)))
      else if list_all is_int xs then Inr (sort_key int_of xs)
      else if length xs \<le> 1 then Inr xs
      else Inl TypeError)"

text \<open>\<open>k in v\<close> for a string \<open>k\<close>: a key of a dict, an element of a list, a substring of a string.\<close>

fun has_substring :: "string \<Rightarrow> string \<Rightarrow> bool" where
  "has_substring k [] = (k = [])"
| "has_substring k (c # cs) = (take (length k) (c # cs) = k \<or> has_substring k cs)"

fun py_in :: "string \<Rightarrow> pyval \<Rightarrow> py_error + bool" where
  "py_in k (PDict kv) = Inr (PStr k \<in> fst ` set kv)"
| "py_in k (PList xs) = Inr (PStr k \<in> set xs)"
| "py_in k (PStr s) = Inr (has_substring k s)"
| "py_in k _ = Inl TypeError"

text \<open>
  \<open>str(v)\<close> and \<open>repr(v)\<close>.  An integer is written in decimal.  The \<open>repr\<close> of a string is
  quoted, by a double quote when the string holds a single quote and no double quote and
  by a single quote otherwise; the quote, the backslash, tab, newline and carriage return
  are escaped by a backslash, and every other character that is not printable is written
  as a backslash, an \<open>x\<close> and its two hexadecimal digits.  The \<open>str\<close> of a string is the
  string, the \<open>str\<close> of a list or a dict the \<open>repr\<close> of its elements between brackets or
  braces.
\<close>

definition digit_char :: "nat \<Rightarrow> char" where
  "digit_char d = ''0123456789abcdef'' ! d"

fun str_nat :: "nat \<Rightarrow> string" where
  "str_nat n = (if n < 10 then [digit_char n] else str_nat (n div 10) @ [digit_char (n mod 10)])"

declare str_nat.simps [simp del]

definition str_int :: "int \<Rightarrow> string" where
  "str_int i = (if i < 0 then CHR ''-'' # str_nat (nat (- i)) else str_nat (nat i))"

definition repr_char :: "char \<Rightarrow> char \<Rightarrow> string" where
  "repr_char q c =
     (let n = (of_char c :: nat)
      in if c = q \<or> c = CHR 0x5C then [CHR 0x5C, c]
         else if c = CHR 0x09 then [CHR 0x5C, CHR ''t'']
         else if c = CHR 0x0A then [CHR 0x5C, CHR ''n'']
         else if c = CHR 0x0D then [CHR 0x5C, CHR ''r'']
         else if n < 32 \<or> n = 127 \<or> (128 \<le> n \<and> n \<le> 160) \<or> n = 173
           then [CHR 0x5C, CHR ''x'', digit_char (n div 16), digit_char (n mod 16)]
         else [c])"

definition repr_str :: "string \<Rightarrow> string" where
  "repr_str s =
     (let q = (if CHR 0x27 \<in> set s \<and> CHR 0x22 \<notin> set s then CHR 0x22 else CHR 0x27)
      in q # concat (map (repr_char q) s) @ [q])"

fun py_repr :: "pyval \<Rightarrow> string" where
  "py_repr PNone = ''None''"
| "py_repr PNaN = ''nan''"
| "py_repr (PBool b) = (if b then ''True'' else ''False'')"
| "py_repr (PInt i) = str_int i"
| "py_repr (PStr s) = repr_str s"
| "py_repr (PList xs) = ''['' @ str_join '', '' (map py_repr xs) @ '']''"
| "py_repr (PDict kv) =
     ''{'' @ str_join '', '' (map (\<lambda>e. py_repr (fst e) @ '': '' @ py_repr (snd e)) kv) @ ''}''"

fun py_str :: "pyval \<Rightarrow> string" where
  "py_str (PStr s) = s"
| "py_str v = py_repr v"

text \<open>
  A Count Record and a Statistics Record are dicts with string keys, kept in insertion
  order.  \<open>d.update(e)\<close> overwrites the keys \<open>d\<close> has and appends the others.
\<close>

type_synonym pydict = "(string \<times> pyval) list"

definition dict_update :: "pydict \<Rightarrow> pydict \<Rightarrow> pydict" where
  "dict_update d e = fold (\<lambda>(k, v). AList.update k v) e d"

section \<open>Record extractors\<close>

text \<open>
  The expression \<open>r["id"].split("-")[i]\<close>, which the extractors repeat, and
  \<open>"-".join(r["id"].split("-")[:-1])\<close>, the issue id of a content item.
\<close>

definition id_component :: "pyval \<Rightarrow> nat \<Rightarrow> py_error + string" where
  "id_component r i =
     then_do (getitem r ''id'') (\<lambda>v.
     then_do (py_split_dash v) (\<lambda>parts.
     py_index parts i))"

definition issue_id :: "pyval \<Rightarrow> py_error + string" where
  "issue_id r =
     then_do (getitem r ''id'') (\<lambda>v.
     then_do (py_split_dash v) (\<lambda>parts.
     Inr (str_join ''-'' (butlast parts))))"

text \<open>\<open>[item for item in items if item["m"]["tp"] == "image"]\<close>\<close>

fun image_items :: "pyval list \<Rightarrow> py_error + pyval list" where
  "image_items [] = Inr []"
| "image_items (item # rest) =
     then_do (getitem item ''m'') (\<lambda>m.
     then_do (getitem m ''tp'') (\<lambda>tp.
     then_do (image_items rest) (\<lambda>r.
     Inr (if tp = PStr ''image'' then item # r else r))))"

text \<open>
  \<^verbatim>\<open>
  def counts_for_canonical_issue(issue, include_np_yr=False):
      counts = (
          {"np_id": issue["id"].split("-")[0], "year": issue["id"].split("-")[1]}
          if include_np_yr else {}
      )
      counts.update({
          "issues": 1,
          "pages": len(set(issue["pp"])),
          "content_items_out": len(issue["i"]),
          "images": len([item for item in issue["i"] if item["m"]["tp"] == "image"]),
      })
      return counts
  \<close>
\<close>

definition counts_for_canonical_issue :: "pyval \<Rightarrow> bool \<Rightarrow> py_error + pydict" where
  "counts_for_canonical_issue issue include_np_yr =
     then_do
       (if include_np_yr then
          then_do (id_component issue 0) (\<lambda>np_id.
          then_do (id_component issue 1) (\<lambda>year.
          Inr [(''np_id'', PStr np_id), (''year'', PStr year)]))
        else Inr [])
       (\<lambda>counts.
     then_do (getitem issue ''pp'') (\<lambda>pp.
     then_do (py_iter pp) (\<lambda>page_ids.
     then_do (py_set page_ids) (\<lambda>pages.
     then_do (getitem issue ''i'') (\<lambda>i1.
     then_do (py_len i1) (\<lambda>n_items.
     then_do (getitem issue ''i'') (\<lambda>i2.
     then_do (py_iter i2) (\<lambda>items.
     then_do (image_items items) (\<lambda>images.
     Inr (dict_update counts
            [(''issues'', PInt 1),
             (''pages'', PInt (int (length pages))),
             (''content_items_out'', PInt (int n_items)),
             (''images'', PInt (int (length images)))]))))))))))"

text \<open>
  \<^verbatim>\<open>
  def counts_for_rebuilt(rebuilt_ci, include_np=False, passim=False):
      split_id = rebuilt_ci["id"].split("-")
      counts = {"np_id": split_id[0]} if include_np else {}
      counts.update({
          "year": split_id[1],
          "issues": "-".join(split_id[:-1]),
          "content_items_out": 1,
      })
      if not passim:
          counts.update({
              "ft_tokens": (len(rebuilt_ci["ft"].split()) if "ft" in rebuilt_ci else 0),
          })
      return counts
  \<close>
\<close>

definition counts_for_rebuilt :: "pyval \<Rightarrow> bool \<Rightarrow> bool \<Rightarrow> py_error + pydict" where
  "counts_for_rebuilt rebuilt_ci include_np passim =
     then_do (getitem rebuilt_ci ''id'') (\<lambda>v.
     then_do (py_split_dash v) (\<lambda>split_id.
     then_do
       (if include_np then then_do (py_index split_id 0) (\<lambda>np_id. Inr [(''np_id'', PStr np_id)])
        else Inr [])
       (\<lambda>counts0.
     then_do (py_index split_id 1) (\<lambda>year.
     let counts = dict_update counts0
           [(''year'', PStr year),
            (''issues'', PStr (str_join ''-'' (butlast split_id))),
            (''content_items_out'', PInt 1)]
     in if \<not> passim then
          then_do (py_in ''ft'' rebuilt_ci) (\<lambda>has_ft.
          then_do
            (if has_ft then
               then_do (getitem rebuilt_ci ''ft'') (\<lambda>ft.
               then_do (py_split_ws ft) (\<lambda>tokens.
               Inr (int (length tokens))))
             else Inr 0)
            (\<lambda>ft_tokens.
          Inr (dict_update counts [(''ft_tokens'', PInt ft_tokens)])))
        else Inr counts))))"

text \<open>
  The extractor of \<open>compute_stats_in_entities_bag\<close>, a lambda in the source:
  \<^verbatim>\<open>
  lambda ci: {
      "np_id": ci["id"].split("-")[0],
      "year": ci["id"].split("-")[1],
      "issues": "-".join(ci["id"].split("-")[:-1]),
      "content_items_out": 1,
      "ne_mentions": len(ci["nes"]),
      "ne_entities": sorted(list(set([
          m["wkd_id"] for m in ci["nes"]
          if "wkd_id" in m and m["wkd_id"] not in ["NIL", None]
      ]))),
  }
  \<close>
  \<open>linked_ids\<close> is the list comprehension.
\<close>

fun linked_ids :: "pyval list \<Rightarrow> py_error + pyval list" where
  "linked_ids [] = Inr []"
| "linked_ids (m # ms) =
     then_do (py_in ''wkd_id'' m) (\<lambda>has_id.
     if has_id then
       then_do (getitem m ''wkd_id'') (\<lambda>w.
       if w = PStr ''NIL'' \<or> w = PNone then linked_ids ms
       else then_do (linked_ids ms) (\<lambda>r. Inr (w # r)))
     else linked_ids ms)"

definition entities_counts :: "pyval \<Rightarrow> py_error + pydict" where
  "entities_counts ci =
     then_do (id_component ci 0) (\<lambda>np_id.
     then_do (id_component ci 1) (\<lambda>year.
     then_do (issue_id ci) (\<lambda>issues.
     then_do (getitem ci ''nes'') (\<lambda>nes1.
     then_do (py_len nes1) (\<lambda>ne_mentions.
     then_do (getitem ci ''nes'') (\<lambda>nes2.
     then_do (py_iter nes2) (\<lambda>mentions.
     then_do (linked_ids mentions) (\<lambda>ids.
     then_do (py_set ids) (\<lambda>id_set.
     then_do (py_sorted id_set) (\<lambda>ne_entities.
     Inr [(''np_id'', PStr np_id),
          (''year'', PStr year),
          (''issues'', PStr issues),
          (''content_items_out'', PInt 1),
          (''ne_mentions'', PInt (int ne_mentions)),
          (''ne_entities'', PList ne_entities)]))))))))))"

text \<open>
  The extractor of \<open>compute_stats_in_langident_bag\<close>:
  \<^verbatim>\<open>
  lambda ci: {
      "np_id": ci["id"].split("-")[0],
      "year": ci["id"].split("-")[1],
      "issues": "-".join(ci["id"].split("-")[:-1]),
      "content_items_out": 1,
      "images": 1 if ci["tp"] == "img" else 0,
      "lang_fd": "None" if ci["lg"] is None else ci["lg"],
  }
  \<close>
\<close>

definition langident_counts :: "pyval \<Rightarrow> py_error + pydict" where
  "langident_counts ci =
     then_do (id_component ci 0) (\<lambda>np_id.
     then_do (id_component ci 1) (\<lambda>year.
     then_do (issue_id ci) (\<lambda>issues.
     then_do (getitem ci ''tp'') (\<lambda>tp.
     then_do (getitem ci ''lg'') (\<lambda>lg.
     then_do (if lg = PNone then Inr (PStr ''None'') else getitem ci ''lg'') (\<lambda>lang_fd.
     Inr [(''np_id'', PStr np_id),
          (''year'', PStr year),
          (''issues'', PStr issues),
          (''content_items_out'', PInt 1),
          (''images'', PInt (if tp = PStr ''img'' then 1 else 0)),
          (''lang_fd'', lang_fd)]))))))"

text \<open>
  The extractor of \<open>compute_stats_in_solr_text_bag\<close>:
  \<^verbatim>\<open>
  lambda ci: {
      "np_id": ci["meta_journal_s"],
      "year": ci["meta_year_i"],
      "issues": ci["meta_issue_id_s"],
      "content_items_out": 1,
  }
  \<close>
\<close>

definition solr_text_counts :: "pyval \<Rightarrow> py_error + pydict" where
  "solr_text_counts ci =
     then_do (getitem ci ''meta_journal_s'') (\<lambda>np_id.
     then_do (getitem ci ''meta_year_i'') (\<lambda>year.
     then_do (getitem ci ''meta_issue_id_s'') (\<lambda>issues.
     Inr [(''np_id'', np_id),
          (''year'', year),
          (''issues'', issues),
          (''content_items_out'', PInt 1)])))"

section \<open>The data-frame engine\<close>

text \<open>
  The pipelines run on a distributed engine (dask bags and data frames over pandas) that
  is not part of the repository.  Its model here is what its documentation says of the
  operations the pipelines call.  A column of dtype \<open>object\<close> holds the Python values it
  was given (the engine's optional conversion of \<open>object\<close> columns to its string dtype is
  taken to be off).
  \<^item> A bag or a data frame is the list of its partitions, a partition the list of its
    elements or rows, a row a dict from column names to cells.
  \<^item> \<open>map\<close> applies a function to every element; an exception raised for any element
    ends the whole computation (the model reports the first in order).
  \<^item> \<open>to_dataframe(meta)\<close> builds the frame of every partition from its records, along
    the columns of \<open>meta\<close> (a missing field gives \<open>NaN\<close>), and casts every column to the
    dtype that \<open>meta\<close> declares for it.
  \<^item> \<open>groupby(by)\<close> drops the rows with a missing (\<open>None\<close>, \<open>NaN\<close>) key cell and raises
    TypeError for an unhashable key cell.
  \<^item> An aggregation is computed in three steps: a function on each partition's groups,
    a combination of the partial results of all partitions per group, a final function.
  \<^item> \<open>persist\<close> only caches and \<open>compute\<close> returns the rows of all partitions in order.
\<close>

fun map_all :: "('a \<Rightarrow> py_error + 'b) \<Rightarrow> 'a list \<Rightarrow> py_error + 'b list" where
  "map_all f [] = Inr []"
| "map_all f (x # xs) =
     then_do (f x) (\<lambda>y.
     then_do (map_all f xs) (\<lambda>ys.
     Inr (y # ys)))"

definition bag_map :: "('a \<Rightarrow> py_error + 'b) \<Rightarrow> 'a list list \<Rightarrow> py_error + 'b list list" where
  "bag_map f bag = map_all (map_all f) bag"

definition cell :: "pydict \<Rightarrow> string \<Rightarrow> pyval" where
  "cell row c = (case map_of row c of Some v \<Rightarrow> v | None \<Rightarrow> PNaN)"

text \<open>
  \<open>data_frame cols seq\<close> is \<open>pd.DataFrame(seq, columns=cols)\<close>, the frame of one partition
  before the cast, and \<open>records_frame\<close> the same for every partition.
\<close>

definition data_frame :: "string list \<Rightarrow> pydict list \<Rightarrow> pydict list" where
  "data_frame cols seq = map (\<lambda>r. map (\<lambda>c. (c, cell r c)) cols) seq"

definition records_frame :: "string list \<Rightarrow> pydict list list \<Rightarrow> pydict list list" where
  "records_frame cols bag = map (data_frame cols) bag"

text \<open>
  The cast to the declared dtypes, \<open>frame.astype(dtypes)\<close>, works on the columns of one
  partition.
  \<^item> A column declared \<open>str\<close>: a missing cell stays missing and every other cell becomes
    its \<open>str\<close>, so the integer 1950 becomes the string \<open>"1950"\<close>.  A column of a partition
    that holds integers together with missing cells, and nothing else, is a column of
    floating point numbers before the cast, and 1950 becomes \<open>"1950.0"\<close> there (the
    model writes the integer followed by \<open>.0\<close>, which is the \<open>str\<close> of the floating point
    number for integers up to \<open>2^53\<close>).
  \<^item> A column declared \<open>int\<close>: every extractor writes integers into the columns declared
    \<open>int\<close> (lemmas \<open>*_int_columns\<close> below), and the cast leaves them as they are.
    Integer columns are 64-bit in the engine; the model uses unbounded integers, the
    counts of a corpus being far below \<open>2^63\<close>.  What the cast does to a cell that is
    not an integer is not modelled: the column is left as it is.
  \<^item> A column declared \<open>object\<close> is left as it is.
\<close>

datatype dtype = DStr | DInt | DObject

fun is_missing :: "pyval \<Rightarrow> bool" where
  "is_missing PNone = True"
| "is_missing PNaN = True"
| "is_missing v = False"

fun is_pint :: "pyval \<Rightarrow> bool" where
  "is_pint (PInt i) = True"
| "is_pint v = False"

definition str_column :: "pyval list \<Rightarrow> pyval list" where
  "str_column vs =
     (let as_float = (list_all (\<lambda>v. is_missing v \<or> is_pint v) vs \<and> list_ex is_missing vs
                        \<and> list_ex is_pint vs)
      in map (\<lambda>v. if is_missing v then PNaN
                   else PStr (if as_float then py_str v @ ''.0'' else py_str v)) vs)"

fun cast_column :: "dtype \<Rightarrow> pyval list \<Rightarrow> pyval list" where
  "cast_column DStr vs = str_column vs"
| "cast_column DInt vs = vs"
| "cast_column DObject vs = vs"

definition astype :: "(string \<times> dtype) list \<Rightarrow> pydict list \<Rightarrow> pydict list" where
  "astype dtypes part =
     map (\<lambda>j. map (\<lambda>(c, t). (c, cast_column t (map (\<lambda>r. cell r c) part) ! j)) dtypes)
         [0..<length part]"

definition to_dataframe :: "(string \<times> dtype) list \<Rightarrow> pydict list list \<Rightarrow> pydict list list" where
  "to_dataframe meta bag = map (astype meta) (records_frame (map fst meta) bag)"

text \<open>Group keys: one \<open>pykey\<close> per key column, ordered as pandas orders an index level.\<close>

datatype pykey = KNum int | KStr string

instantiation pykey :: linorder
begin

fun less_eq_pykey :: "pykey \<Rightarrow> pykey \<Rightarrow> bool" where
  "less_eq_pykey (KNum a) (KNum b) = (a \<le> b)"
| "less_eq_pykey (KNum a) (KStr t) = True"
| "less_eq_pykey (KStr s) (KNum b) = False"
| "less_eq_pykey (KStr s) (KStr t) = (s \<le> t)"

definition less_pykey :: "pykey \<Rightarrow> pykey \<Rightarrow> bool" where
  "less_pykey x y = (x \<le> y \<and> \<not> y \<le> x)"

instance
proof
  fix x y z :: pykey
  show "(x < y) = (x \<le> y \<and> \<not> y \<le> x)" by (simp add: less_pykey_def)
  show "x \<le> x" by (cases x) simp_all
  show "x \<le> y \<Longrightarrow> y \<le> z \<Longrightarrow> x \<le> z" by (cases x; cases y; cases z) auto
  show "x \<le> y \<Longrightarrow> y \<le> x \<Longrightarrow> x = y" by (cases x; cases y) auto
  show "x \<le> y \<or> y \<le> x" by (cases x; cases y) auto
qed

end

fun key_cell :: "pyval \<Rightarrow> pykey option" where
  "key_cell (PStr s) = Some (KStr s)"
| "key_cell (PInt i) = Some (KNum i)"
| "key_cell (PBool b) = Some (KNum (if b then 1 else 0))"
| "key_cell _ = None"

fun key_val :: "pykey \<Rightarrow> pyval" where
  "key_val (KStr s) = PStr s"
| "key_val (KNum i) = PInt i"

definition row_key :: "string list \<Rightarrow> pydict \<Rightarrow> pykey list option" where
  "row_key by r = those (map (\<lambda>c. key_cell (cell r c)) by)"

definition group_keys :: "string list \<Rightarrow> pydict list \<Rightarrow> pykey list list" where
  "group_keys by rows = sort (remdups (List.map_filter (row_key by) rows))"

definition group_rows :: "string list \<Rightarrow> pykey list \<Rightarrow> pydict list \<Rightarrow> pydict list" where
  "group_rows by k rows = filter (\<lambda>r. row_key by r = Some k) rows"

text \<open>
  A series indexed by group keys is the list of its (key, value) entries.
  \<open>series_groupby by col part\<close> is \<open>part.groupby(by)[col]\<close> on one partition: every
  group of the partition with the cells of the column.  \<open>regroup f s\<close> is
  \<open>s.groupby(level=...)\<close> followed by the reduction \<open>f\<close> of the values of each key.
\<close>

type_synonym 'v series = "(pykey list \<times> 'v) list"

definition series_groupby :: "string list \<Rightarrow> string \<Rightarrow> pydict list \<Rightarrow> pyval list series" where
  "series_groupby by col part =
     map (\<lambda>k. (k, map (\<lambda>r. cell r col) (group_rows by k part))) (group_keys by part)"

definition regroup :: "('v list \<Rightarrow> 'r) \<Rightarrow> 'v series \<Rightarrow> 'r series" where
  "regroup f s =
     map (\<lambda>k. (k, f (map snd (filter (\<lambda>e. fst e = k) s)))) (sort (remdups (map fst s)))"

section \<open>The aggregation tunique\<close>

text \<open>
  \<^verbatim>\<open>
  def chunk(s):
      return s.apply(lambda x: list(set(x)))

  def agg(s):
      s = s._selected_obj
      return s.apply(list).groupby(level=list(range(s.index.nlevels))).sum()

  def finalize(s):
      return s.apply(lambda x: len(set(x)))

  tunique = dd.Aggregation("tunique", chunk, agg, finalize)
  \<close>
  \<open>chunk\<close> receives the groups of one partition, \<open>agg\<close> the chunk results of all
  partitions one after the other (\<open>sum\<close> of lists is their concatenation), \<open>finalize\<close>
  the result of \<open>agg\<close>.  \<open>tunique by col df\<close> is the aggregation run by the engine on
  column \<open>col\<close> of the data frame \<open>df\<close> grouped by the columns \<open>by\<close>.
\<close>

definition chunk :: "pyval list series \<Rightarrow> py_error + pyval list series" where
  "chunk s = map_all (\<lambda>(k, x). then_do (py_set x) (\<lambda>d. Inr (k, d))) s"

definition agg :: "pyval list series \<Rightarrow> pyval list series" where
  "agg s = regroup concat s"

definition finalize :: "pyval list series \<Rightarrow> py_error + int series" where
  "finalize s = map_all (\<lambda>(k, x). then_do (py_set x) (\<lambda>d. Inr (k, int (length d)))) s"

definition tunique :: "string list \<Rightarrow> string \<Rightarrow> pydict list list \<Rightarrow> py_error + int series" where
  "tunique by col df =
     then_do (map_all (\<lambda>part. chunk (series_groupby by col part)) df) (\<lambda>chunks.
     finalize (agg (concat chunks)))"

section \<open>Grouped aggregation\<close>

text \<open>
  The built-in reductions of the engine: \<open>sum\<close> adds the cells of each group in every
  partition and then the partial sums; \<open>list\<close> collects the cells of each group in every
  partition and chains the partial lists.  Columns reduced by \<open>sum\<close> are declared \<open>int\<close>.
\<close>

definition sum_chunk :: "pyval list series \<Rightarrow> int series" where
  "sum_chunk s = map (\<lambda>(k, x). (k, sum_list (map int_of x))) s"

definition series_sum :: "string list \<Rightarrow> string \<Rightarrow> pydict list list \<Rightarrow> int series" where
  "series_sum by col df =
     regroup sum_list (concat (map (\<lambda>part. sum_chunk (series_groupby by col part)) df))"

definition series_list :: "string list \<Rightarrow> string \<Rightarrow> pydict list list \<Rightarrow> pyval list series" where
  "series_list by col df = regroup concat (concat (map (series_groupby by col) df))"

datatype aggfn = Sum | Tunique | ListOf

fun aggregate_column ::
  "aggfn \<Rightarrow> string list \<Rightarrow> string \<Rightarrow> pydict list list \<Rightarrow> py_error + pyval series" where
  "aggregate_column Sum by col df = Inr (map (\<lambda>(k, n). (k, PInt n)) (series_sum by col df))"
| "aggregate_column Tunique by col df =
     then_do (tunique by col df) (\<lambda>s. Inr (map (\<lambda>(k, n). (k, PInt n)) s))"
| "aggregate_column ListOf by col df =
     Inr (map (\<lambda>(k, xs). (k, PList xs)) (series_list by col df))"

text \<open>
  \<open>df.groupby(by).agg(spec)\<close>: a data frame indexed by the group keys, with one column
  for each entry of \<open>spec\<close>.  The built-in reductions leave the groups in the order in
  which their first rows occur.  The result of \<open>tunique\<close> comes out of the \<open>groupby\<close> of its
  \<open>agg\<close>, which sorts, and the frame of a \<open>spec\<close> that has a \<open>tunique\<close> column is indexed in
  ascending order of the keys.
\<close>

definition first_keys :: "string list \<Rightarrow> pydict list \<Rightarrow> pykey list list" where
  "first_keys by rows = rev (remdups (rev (List.map_filter (row_key by) rows)))"

definition result_keys :: "(string \<times> aggfn) list \<Rightarrow> string list \<Rightarrow> pydict list \<Rightarrow> pykey list list" where
  "result_keys spec by rows =
     (if list_ex (\<lambda>(col, fn). fn = Tunique) spec then group_keys by rows else first_keys by rows)"

definition groupby_agg ::
  "string list \<Rightarrow> (string \<times> aggfn) list \<Rightarrow> pydict list list \<Rightarrow> py_error + pydict series" where
  "groupby_agg by spec df =
     (if list_ex (\<lambda>r. list_ex (\<lambda>c. \<not> py_hashable (cell r c)) by) (concat df) then Inl TypeError
      else
        then_do
          (map_all (\<lambda>(col, fn). then_do (aggregate_column fn by col df) (\<lambda>s. Inr (col, s))) spec)
          (\<lambda>columns.
        Inr (map (\<lambda>k. (k, map (\<lambda>(col, s). (col, case map_of s k of Some v \<Rightarrow> v | None \<Rightarrow> PNaN))
                              columns))
                 (result_keys spec by (concat df)))))"

text \<open>
  \<open>reset_index()\<close> turns the index into the first columns; \<open>to_bag(format="dict")\<close>
  followed by \<open>compute()\<close> returns the rows as dicts, without the index.
\<close>

definition reset_index :: "string list \<Rightarrow> pydict series \<Rightarrow> pydict series" where
  "reset_index by df = map (\<lambda>(k, row). (k, zip by (map key_val k) @ row)) df"

definition to_bag_dict :: "pydict series \<Rightarrow> pydict list" where
  "to_bag_dict df = map snd df"

text \<open>
  \<open>df[col] = df[col].apply(f)\<close> and \<open>df.explode(col)\<close>: a row whose cell is a list is
  replaced by one row for each element of the list, the other cells repeated; an empty
  list gives one row with \<open>NaN\<close>; a cell that is not a list is left as it is.
\<close>

definition apply_column :: "string \<Rightarrow> (pyval \<Rightarrow> pyval) \<Rightarrow> pydict list list \<Rightarrow> pydict list list" where
  "apply_column col f df = map (map (\<lambda>r. AList.update col (f (cell r col)) r)) df"

definition explode_row :: "string \<Rightarrow> pydict \<Rightarrow> pydict list" where
  "explode_row col r =
     (case cell r col of
        PList [] \<Rightarrow> [AList.update col PNaN r]
      | PList xs \<Rightarrow> map (\<lambda>x. AList.update col x r) xs
      | _ \<Rightarrow> [r])"

definition explode :: "string \<Rightarrow> pydict list list \<Rightarrow> pydict list list" where
  "explode col df = map (\<lambda>part. concat (map (explode_row col) part)) df"

section \<open>The pipelines\<close>

text \<open>
  Every pipeline takes an optional handle \<open>client\<close> and, when it is given, calls
  \<open>progress\<close> on the aggregated collection before materializing it.  The model returns
  what was displayed together with the result; \<open>print\<close> and \<open>logger\<close> calls are left
  out.  A collection that is not yet computed is a value of type \<open>py_error + _\<close>: an
  exception of an earlier stage is raised by \<open>compute\<close>.
\<close>

datatype client = Client

datatype event = ProgressBar

definition progress :: "'a \<Rightarrow> event list" where
  "progress futures = [ProgressBar]"

text \<open>
  \<^verbatim>\<open>
  def compute_stats_in_canonical_bag(s3_canonical_issues, client=None):
      count_df = (
          s3_canonical_issues.map(lambda i: counts_for_canonical_issue(i, include_np_yr=True))
          .to_dataframe(meta={"np_id": str, "year": str, "issues": int, "pages": int,
                              "images": int, "content_items_out": int})
          .persist()
      )
      aggregated_df = (
          count_df.groupby(by=["np_id", "year"])
          .agg({"issues": sum, "pages": sum, "content_items_out": sum, "images": sum})
          .reset_index()
      ).persist()
      if client is not None:
          progress(aggregated_df)
      return aggregated_df.to_bag(format="dict").compute()
  \<close>
\<close>

definition compute_stats_in_canonical_bag ::
  "pyval list list \<Rightarrow> client option \<Rightarrow> event list \<times> (py_error + pydict list)" where
  "compute_stats_in_canonical_bag s3_canonical_issues client =
     (let count_df =
            then_do (bag_map (\<lambda>i. counts_for_canonical_issue i True) s3_canonical_issues) (\<lambda>counts.
            Inr (to_dataframe
                   [(''np_id'', DStr), (''year'', DStr), (''issues'', DInt), (''pages'', DInt),
                    (''images'', DInt), (''content_items_out'', DInt)]
                   counts));
          aggregated_df =
            then_do count_df (\<lambda>df.
            then_do (groupby_agg [''np_id'', ''year'']
                       [(''issues'', Sum), (''pages'', Sum), (''content_items_out'', Sum),
                        (''images'', Sum)] df) (\<lambda>grouped.
            Inr (reset_index [''np_id'', ''year''] grouped)));
          shown = (if client \<noteq> None then progress aggregated_df else [])
      in (shown, then_do aggregated_df (\<lambda>df. Inr (to_bag_dict df))))"

text \<open>
  \<^verbatim>\<open>
  def compute_stats_in_rebuilt_bag(rebuilt_articles, key="", include_np=False,
                                   passim=False, client=None):
      df_meta = {"np_id": str} if include_np else {}
      df_meta.update({"year": str, "issues": str, "content_items_out": int})
      if not passim:
          df_meta.update({"ft_tokens": int})
      rebuilt_count_df = (
          rebuilt_articles.map(
              lambda rf: counts_for_rebuilt(rf, include_np=include_np, passim=passim))
          .to_dataframe(meta=df_meta).persist()
      )
      gp_key = ["np_id", "year"] if include_np else "year"
      if not passim:
          aggregated_df = rebuilt_count_df.groupby(by=gp_key).agg(
              {"issues": tunique, "content_items_out": sum, "ft_tokens": sum})
      else:
          aggregated_df = rebuilt_count_df.groupby(by=gp_key).agg(
              {"issues": tunique, "content_items_out": sum})
      if include_np:
          aggregated_df = aggregated_df.reset_index().persist()
      if client is not None:
          progress(aggregated_df)
      return aggregated_df.to_bag(format="dict").compute()
  \<close>
  The argument \<open>key\<close> is only logged.
\<close>

definition compute_stats_in_rebuilt_bag ::
  "pyval list list \<Rightarrow> string \<Rightarrow> bool \<Rightarrow> bool \<Rightarrow> client option
     \<Rightarrow> event list \<times> (py_error + pydict list)" where
  "compute_stats_in_rebuilt_bag rebuilt_articles key include_np passim client =
     (let df_meta = (if include_np then [(''np_id'', DStr)] else [])
                      @ [(''year'', DStr), (''issues'', DStr), (''content_items_out'', DInt)]
                      @ (if \<not> passim then [(''ft_tokens'', DInt)] else []);
          rebuilt_count_df =
            then_do (bag_map (\<lambda>rf. counts_for_rebuilt rf include_np passim) rebuilt_articles)
              (\<lambda>counts. Inr (to_dataframe df_meta counts));
          gp_key = (if include_np then [''np_id'', ''year''] else [''year'']);
          spec = (if \<not> passim
                  then [(''issues'', Tunique), (''content_items_out'', Sum), (''ft_tokens'', Sum)]
                  else [(''issues'', Tunique), (''content_items_out'', Sum)]);
          aggregated_df =
            then_do rebuilt_count_df (\<lambda>df.
            then_do (groupby_agg gp_key spec df) (\<lambda>grouped.
            Inr (if include_np then reset_index gp_key grouped else grouped)));
          shown = (if client \<noteq> None then progress aggregated_df else [])
      in (shown, then_do aggregated_df (\<lambda>df. Inr (to_bag_dict df))))"

text \<open>
  \<^verbatim>\<open>
  def compute_stats_in_entities_bag(s3_entities, client=None):
      count_df = s3_entities.map(lambda ci: {...}).to_dataframe(
          meta={"np_id": str, "year": str, "issues": str, "content_items_out": int,
                "ne_mentions": int, "ne_entities": object})
      count_df["ne_entities"] = count_df["ne_entities"].apply(
          lambda x: x if isinstance(x, list) else [x])
      count_df = count_df.explode("ne_entities").persist()
      aggregated_df = (
          count_df.groupby(by=["np_id", "year"])
          .agg({"issues": tunique, "content_items_out": sum, "ne_mentions": sum,
                "ne_entities": tunique})
          .reset_index()
      ).persist()
      if client is not None:
          progress(aggregated_df)
      return aggregated_df.to_bag(format="dict").compute()
  \<close>
\<close>

definition wrap_list :: "pyval \<Rightarrow> pyval" where
  "wrap_list x = (case x of PList xs \<Rightarrow> x | _ \<Rightarrow> PList [x])"

definition compute_stats_in_entities_bag ::
  "pyval list list \<Rightarrow> client option \<Rightarrow> event list \<times> (py_error + pydict list)" where
  "compute_stats_in_entities_bag s3_entities client =
     (let count_df0 =
            then_do (bag_map entities_counts s3_entities) (\<lambda>counts.
            Inr (to_dataframe
                   [(''np_id'', DStr), (''year'', DStr), (''issues'', DStr),
                    (''content_items_out'', DInt), (''ne_mentions'', DInt),
                    (''ne_entities'', DObject)]
                   counts));
          count_df1 = then_do count_df0 (\<lambda>df. Inr (apply_column ''ne_entities'' wrap_list df));
          count_df = then_do count_df1 (\<lambda>df. Inr (explode ''ne_entities'' df));
          aggregated_df =
            then_do count_df (\<lambda>df.
            then_do (groupby_agg [''np_id'', ''year'']
                       [(''issues'', Tunique), (''content_items_out'', Sum), (''ne_mentions'', Sum),
                        (''ne_entities'', Tunique)] df) (\<lambda>grouped.
            Inr (reset_index [''np_id'', ''year''] grouped)));
          shown = (if client \<noteq> None then progress aggregated_df else [])
      in (shown, then_do aggregated_df (\<lambda>df. Inr (to_bag_dict df))))"

text \<open>
  \<open>dict(Counter(v))\<close>: the elements of a list (or the characters of a string) with the
  number of times each occurs, in the order of their first occurrence; a mapping is
  taken as the counts it holds; numbers are not iterable.
\<close>

definition count_elems :: "pyval list \<Rightarrow> (pyval \<times> pyval) list" where
  "count_elems xs =
     (let ys = map py_norm xs
      in map (\<lambda>k. (k, PInt (int (count_list ys k)))) (rev (remdups (rev ys))))"

fun counter :: "pyval \<Rightarrow> py_error + pyval" where
  "counter (PList xs) =
     (if list_all py_hashable xs then Inr (PDict (count_elems xs)) else Inl TypeError)"
| "counter (PStr s) = Inr (PDict (count_elems (map (\<lambda>c. PStr [c]) s)))"
| "counter (PDict kv) = Inr (PDict kv)"
| "counter PNone = Inr (PDict [])"
| "counter _ = Inl TypeError"

text \<open>
  \<^verbatim>\<open>
  def compute_stats_in_langident_bag(s3_langident, client=None):
      def freq(x, col="lang_fd"):
          x[col] = dict(Counter(literal_eval(x[col])))
          return x

      count_df = s3_langident.map(lambda ci: {...}).to_dataframe(
          meta={"np_id": str, "year": str, "issues": str, "content_items_out": int,
                "images": int, "lang_fd": object}).persist()
      aggregated_df = (
          count_df.groupby(by=["np_id", "year"])
          .agg({"issues": tunique, "content_items_out": sum, "images": sum, "lang_fd": list})
          .reset_index()
      ).persist()
      # Dask dataframes did not support using literal_eval
      agg_bag = aggregated_df.to_bag(format="dict").map(freq)
      if client is not None:
          progress(agg_bag)
      return agg_bag.compute()
  \<close>
  \<open>ast.literal_eval(node_or_string)\<close> belongs to Python's library.  Given a string, it
  parses the string as a Python literal; given any other value that is not a syntax
  tree, it raises ValueError (malformed node or string).  The grammar of Python literals
  is not part of the repository: the parser of strings is the parameter \<open>parse\<close>.  The
  cell that \<open>freq\<close> reads is the list that the reduction \<open>list\<close> collected, so that what
  the pipeline returns does not depend on \<open>parse\<close> (lemmas \<open>langident_raises\<close> and
  \<open>langident_returns_nothing\<close>).
\<close>

fun literal_eval :: "(string \<Rightarrow> py_error + pyval) \<Rightarrow> pyval \<Rightarrow> py_error + pyval" where
  "literal_eval parse (PStr s) = parse s"
| "literal_eval parse v = Inl ValueError"

definition freq :: "(string \<Rightarrow> py_error + pyval) \<Rightarrow> pydict \<Rightarrow> py_error + pydict" where
  "freq parse x =
     (case map_of x ''lang_fd'' of
        None \<Rightarrow> Inl KeyError
      | Some v \<Rightarrow>
          then_do (literal_eval parse v) (\<lambda>parsed.
          then_do (counter parsed) (\<lambda>fd.
          Inr (AList.update ''lang_fd'' fd x))))"

definition compute_stats_in_langident_bag ::
  "(string \<Rightarrow> py_error + pyval) \<Rightarrow> pyval list list \<Rightarrow> client option
     \<Rightarrow> event list \<times> (py_error + pydict list)" where
  "compute_stats_in_langident_bag parse s3_langident client =
     (let count_df =
            then_do (bag_map langident_counts s3_langident) (\<lambda>counts.
            Inr (to_dataframe
                   [(''np_id'', DStr), (''year'', DStr), (''issues'', DStr),
                    (''content_items_out'', DInt), (''images'', DInt), (''lang_fd'', DObject)]
                   counts));
          aggregated_df =
            then_do count_df (\<lambda>df.
            then_do (groupby_agg [''np_id'', ''year'']
                       [(''issues'', Tunique), (''content_items_out'', Sum), (''images'', Sum),
                        (''lang_fd'', ListOf)] df) (\<lambda>grouped.
            Inr (reset_index [''np_id'', ''year''] grouped)));
          agg_bag = then_do aggregated_df (\<lambda>df. map_all (freq parse) (to_bag_dict df));
          shown = (if client \<noteq> None then progress agg_bag else [])
      in (shown, agg_bag))"

text \<open>
  \<^verbatim>\<open>
  def compute_stats_in_solr_text_bag(s3_solr_text, client=None):
      count_df = s3_solr_text.map(lambda ci: {...}).to_dataframe(
          meta={"np_id": str, "year": str, "issues": str, "content_items_out": int}).persist()
      aggregated_df = (
          count_df.groupby(by=["np_id", "year"])
          .agg({"issues": tunique, "content_items_out": sum})
          .reset_index()
      ).persist()
      if client is not None:
          progress(aggregated_df)
      return aggregated_df.to_bag(format="dict").compute()
  \<close>
\<close>

definition compute_stats_in_solr_text_bag ::
  "pyval list list \<Rightarrow> client option \<Rightarrow> event list \<times> (py_error + pydict list)" where
  "compute_stats_in_solr_text_bag s3_solr_text client =
     (let count_df =
            then_do (bag_map solr_text_counts s3_solr_text) (\<lambda>counts.
            Inr (to_dataframe
                   [(''np_id'', DStr), (''year'', DStr), (''issues'', DStr),
                    (''content_items_out'', DInt)]
                   counts));
          aggregated_df =
            then_do count_df (\<lambda>df.
            then_do (groupby_agg [''np_id'', ''year'']
                       [(''issues'', Tunique), (''content_items_out'', Sum)] df) (\<lambda>grouped.
            Inr (reset_index [''np_id'', ''year''] grouped)));
          shown = (if client \<noteq> None then progress aggregated_df else [])
      in (shown, then_do aggregated_df (\<lambda>df. Inr (to_bag_dict df))))"

section \<open>utils.chunk\<close>

text \<open>
  \<^verbatim>\<open>
  def chunk(l_to_chunk: list, chunksize: int) -> Generator:
      for i in range(0, len(l_to_chunk), chunksize):
          yield l_to_chunk[i : i + chunksize]
  \<close>
  \<open>chunk_from i l n\<close> is the loop from index \<open>i\<close> on, for a positive step \<open>n\<close>; the
  generator is modelled by the list of what it yields.  \<open>range\<close> raises ValueError for a
  step of zero and is empty for a negative step.
\<close>

function chunk_from :: "nat \<Rightarrow> 'a list \<Rightarrow> nat \<Rightarrow> 'a list list" where
  "chunk_from i l n =
     (if 0 < n \<and> i < length l then take n (drop i l) # chunk_from (i + n) l n else [])"
  by pat_completeness auto
termination
  by (relation "measure (\<lambda>(i, l, n). length l - i)") auto

declare chunk_from.simps [simp del]

definition utils_chunk :: "'a list \<Rightarrow> int \<Rightarrow> py_error + 'a list list" where
  "utils_chunk l_to_chunk chunksize =
     (if chunksize = 0 then Inl ValueError
      else if chunksize < 0 then Inr []
      else Inr (chunk_from 0 l_to_chunk (nat chunksize)))"

section \<open>Malformed identifiers\<close>

text \<open>
  A raw record has a malformed id when the field \<open>id\<close> is missing, or is a string that
  does not split into at least two components at the dashes.  \<open>id_error\<close> is the
  exception Python raises for it: KeyError for the missing key, IndexError for the
  missing second component.
\<close>

fun id_undashed :: "pyval \<Rightarrow> bool" where
  "id_undashed (PStr s) = (length (str_split CHR ''-'' s) < 2)"
| "id_undashed _ = False"

definition id_malformed :: "pyval \<Rightarrow> bool" where
  "id_malformed r =
     (case r of
        PDict kv \<Rightarrow> (case map_of kv (PStr ''id'') of None \<Rightarrow> True | Some v \<Rightarrow> id_undashed v)
      | _ \<Rightarrow> False)"

definition id_error :: "pyval \<Rightarrow> py_error" where
  "id_error r = (if getitem r ''id'' = Inl KeyError then KeyError else IndexError)"

text \<open>A canonical issue with the id \<open>"NZZ"\<close>, one page and no content item.\<close>

definition nzz_record :: pyval where
  "nzz_record =
     PDict [(PStr ''id'', PStr ''NZZ''), (PStr ''pp'', PList [PStr ''p1'']), (PStr ''i'', PList [])]"

section \<open>Distinct counts\<close>

text \<open>
  The number of distinct values of a list, up to Python's equality: \<open>len(set(xs))\<close> when
  every value is hashable.  \<open>grouped_hashable by col rows\<close> says that the cell of column
  \<open>col\<close> is hashable in every row that \<open>groupby(by)\<close> keeps.
\<close>

definition distinct_count :: "pyval list \<Rightarrow> int" where
  "distinct_count xs = int (card (py_norm ` set xs))"

definition grouped_hashable :: "string list \<Rightarrow> string \<Rightarrow> pydict list \<Rightarrow> bool" where
  "grouped_hashable by col rows =
     list_all (\<lambda>r. row_key by r = None \<or> py_hashable (cell r col)) rows"

text \<open>Two partitionings of the same four rows with the columns \<open>year\<close> and \<open>issues\<close>.\<close>

definition issue_row :: "string \<Rightarrow> string \<Rightarrow> pydict" where
  "issue_row y i = [(''year'', PStr y), (''issues'', PStr i)]"

definition issue_rows_split_a :: "pydict list list" where
  "issue_rows_split_a =
     [[issue_row ''1950'' ''GDL-1950-01-01-a'', issue_row ''1950'' ''GDL-1950-01-02-a''],
      [issue_row ''1950'' ''GDL-1950-01-01-a'', issue_row ''1951'' ''GDL-1951-01-01-a'']]"

definition issue_rows_split_b :: "pydict list list" where
  "issue_rows_split_b =
     [[issue_row ''1950'' ''GDL-1950-01-01-a''],
      [],
      [issue_row ''1951'' ''GDL-1951-01-01-a'', issue_row ''1950'' ''GDL-1950-01-02-a'',
       issue_row ''1950'' ''GDL-1950-01-01-a'']]"

section \<open>Example records\<close>

text \<open>Entity-linked items: the id and the linked identifiers of the mentions.\<close>

definition entity_item :: "string \<Rightarrow> pyval list \<Rightarrow> pyval" where
  "entity_item i ws =
     PDict [(PStr ''id'', PStr i),
            (PStr ''nes'', PList (map (\<lambda>w. PDict [(PStr ''wkd_id'', w)]) ws))]"

text \<open>\<open>item["m"]["tp"]\<close>, the type of a content item of a canonical issue.\<close>

definition item_type :: "pyval \<Rightarrow> py_error + pyval" where
  "item_type item = then_do (getitem item ''m'') (\<lambda>m. getitem m ''tp'')"

definition content_item :: "string \<Rightarrow> pyval" where
  "content_item tp = PDict [(PStr ''m'', PDict [(PStr ''tp'', PStr tp)])]"

text \<open>
  Two canonical issues of the NZZ in 1900: the first lists three page ids, two of them
  distinct, and has one image among its two content items; the second has three distinct
  pages and no image.
\<close>

definition nzz_issue_1 :: pyval where
  "nzz_issue_1 =
     PDict [(PStr ''id'', PStr ''NZZ-1900-01-01-a''),
            (PStr ''pp'', PList [PStr ''NZZ-1900-01-01-a-p0001'', PStr ''NZZ-1900-01-01-a-p0002'',
                                 PStr ''NZZ-1900-01-01-a-p0001'']),
            (PStr ''i'', PList [content_item ''image'', content_item ''article''])]"

definition nzz_issue_2 :: pyval where
  "nzz_issue_2 =
     PDict [(PStr ''id'', PStr ''NZZ-1900-01-02-a''),
            (PStr ''pp'', PList [PStr ''NZZ-1900-01-02-a-p0001'', PStr ''NZZ-1900-01-02-a-p0002'',
                                 PStr ''NZZ-1900-01-02-a-p0003'']),
            (PStr ''i'', PList [content_item ''article''])]"

text \<open>
  Three rebuilt articles of the GDL in 1950, two of the issue \<open>GDL-1950-01-01-a\<close> and one
  of the issue \<open>GDL-1950-01-02-a\<close>, with full texts of 10, 5 and 7 tokens.
\<close>

definition rebuilt_article :: "string \<Rightarrow> string \<Rightarrow> pyval" where
  "rebuilt_article i ft = PDict [(PStr ''id'', PStr i), (PStr ''ft'', PStr ft)]"

definition gdl_article_1 :: pyval where
  "gdl_article_1 =
     rebuilt_article ''GDL-1950-01-01-a-i0001'' ''le conseil a tenu sa seance hier soir a Geneve''"

definition gdl_article_2 :: pyval where
  "gdl_article_2 = rebuilt_article ''GDL-1950-01-01-a-i0002'' ''  avis  aux abonnes du journal ''"

definition gdl_article_3 :: pyval where
  "gdl_article_3 =
     rebuilt_article ''GDL-1950-01-02-a-i0001'' ''la bourse de Paris reste tres calme''"

section \<open>What a grouped aggregation yields\<close>

text \<open>
  The value that a reduction yields for one group, from the rows of the group: for \<open>sum\<close>
  the arithmetic sum of the cells, for \<open>tunique\<close> the number of distinct cells, for
  \<open>list\<close> the cells in the order of the rows.
\<close>

fun agg_value :: "aggfn \<Rightarrow> string \<Rightarrow> pydict list \<Rightarrow> pyval" where
  "agg_value Sum col rows = PInt (sum_list (map (\<lambda>r. int_of (cell r col)) rows))"
| "agg_value Tunique col rows = PInt (distinct_count (map (\<lambda>r. cell r col) rows))"
| "agg_value ListOf col rows = PList (map (\<lambda>r. cell r col) rows)"

section \<open>Rows accounted for by the output\<close>



text \<open>
  \<open>str_cell v w\<close>: \<open>w\<close> is a cell that the cast to \<open>str\<close> can make of the cell \<open>v\<close>.
\<close>

definition str_cell :: "pyval \<Rightarrow> pyval \<Rightarrow> bool" where
  "str_cell v w =
     (if is_missing v then w = PNaN
      else w = PStr (py_str v) \<or> (is_pint v \<and> w = PStr (py_str v @ ''.0'')))"




section \<open>Properties of Python built-ins\<close>

lemma then_do_Inl [simp]: "then_do (Inl e) f = Inl e"
  by (simp add: then_do_def)

lemma then_do_Inr [simp]: "then_do (Inr v) f = f v"
  by (simp add: then_do_def)

lemma then_do_eq_Inr: "then_do r f = Inr y \<longleftrightarrow> (\<exists>v. r = Inr v \<and> f v = Inr y)"
  by (cases r) simp_all

lemma str_split_not_Nil [simp]: "str_split sep s \<noteq> []"
  by (induction s) (auto split: list.splits)

lemma str_split_no_sep: "sep \<notin> set s \<Longrightarrow> str_split sep s = [s]"
  by (induction s) auto

lemma str_split_length: "length (str_split sep s) = Suc (count_list s sep)"
  by (induction s) (auto split: list.splits)

lemma str_split_short: "length (str_split sep s) < 2 \<Longrightarrow> str_split sep s = [s]"
proof -
  assume "length (str_split sep s) < 2"
  then have "count_list s sep = 0" by (simp add: str_split_length)
  then have "sep \<notin> set s" by (simp add: count_list_0_iff)
  then show ?thesis by (rule str_split_no_sep)
qed

section \<open>Properties of utils.chunk\<close>

lemma concat_chunk_from: "0 < n \<Longrightarrow> concat (chunk_from i l n) = drop i l"
proof (induction i l n rule: chunk_from.induct)
  case (1 i l n)
  show ?case
  proof (cases "i < length l")
    case True
    have "concat (chunk_from i l n) = take n (drop i l) @ drop (i + n) l"
      using True 1 by (subst chunk_from.simps) simp
    also have "\<dots> = drop i l"
      by (metis add.commute append_take_drop_id drop_drop)
    finally show ?thesis .
  next
    case False
    then show ?thesis by (subst chunk_from.simps) simp
  qed
qed

lemma chunk_from_nth:
  "0 < n \<Longrightarrow> k < length (chunk_from i l n) \<Longrightarrow>
   chunk_from i l n ! k = take n (drop (i + k * n) l)"
proof (induction i l n arbitrary: k rule: chunk_from.induct)
  case (1 i l n)
  show ?case
  proof (cases "i < length l")
    case True
    have eq: "chunk_from i l n = take n (drop i l) # chunk_from (i + n) l n"
      using True 1(2) by (subst chunk_from.simps) simp
    show ?thesis
    proof (cases k)
      case 0
      then show ?thesis by (simp add: eq)
    next
      case (Suc j)
      then have "j < length (chunk_from (i + n) l n)"
        using 1(3) eq by simp
      then have "chunk_from (i + n) l n ! j = take n (drop (i + n + j * n) l)"
        using 1(1) [of j] True 1(2) by simp
      then show ?thesis by (simp add: eq Suc add.assoc)
    qed
  next
    case False
    then have "chunk_from i l n = []" by (subst chunk_from.simps) simp
    then show ?thesis using 1(3) by simp
  qed
qed

lemma chunk_from_butlast_length:
  "0 < n \<Longrightarrow> c \<in> set (butlast (chunk_from i l n)) \<Longrightarrow> length c = n"
proof (induction i l n rule: chunk_from.induct)
  case (1 i l n)
  show ?case
  proof (cases "i < length l")
    case True
    have eq: "chunk_from i l n = take n (drop i l) # chunk_from (i + n) l n"
      using True 1(2) by (subst chunk_from.simps) simp
    show ?thesis
    proof (cases "chunk_from (i + n) l n = []")
      case True
      then show ?thesis using 1(3) eq by simp
    next
      case False
      then have "i + n < length l"
        by (subst (asm) chunk_from.simps) (simp split: if_splits)
      then have len: "length (take n (drop i l)) = n" by simp
      from 1(3) eq False
      have "c = take n (drop i l) \<or> c \<in> set (butlast (chunk_from (i + n) l n))"
        by simp
      then show ?thesis using len 1(1) True 1(2) by auto
    qed
  next
    case False
    then have "chunk_from i l n = []" by (subst chunk_from.simps) simp
    then show ?thesis using 1(3) by simp
  qed
qed

text \<open>
  C10.  For every list \<open>l\<close> and every chunk size \<open>n > 0\<close>, \<open>chunk(l, n)\<close> yields
  consecutive slices of \<open>l\<close>: the \<open>k\<close>-th chunk is \<open>l[k*n : k*n + n]\<close>, the chunks
  concatenated in order give \<open>l\<close> back, and every chunk but possibly the last has length
  exactly \<open>n\<close>.
\<close>

theorem utils_chunk_slices:
  assumes "0 < n"
  shows "\<exists>cs. utils_chunk l n = Inr cs \<and> concat cs = l
           \<and> (\<forall>k < length cs. cs ! k = take (nat n) (drop (k * nat n) l))
           \<and> (\<forall>c \<in> set (butlast cs). int (length c) = n)"
proof -
  have pos: "0 < nat n" using assms by simp
  have "utils_chunk l n = Inr (chunk_from 0 l (nat n))"
    using assms by (simp add: utils_chunk_def)
  moreover have "concat (chunk_from 0 l (nat n)) = l"
    using concat_chunk_from [OF pos, of 0 l] by simp
  moreover have "\<forall>k < length (chunk_from 0 l (nat n)).
      chunk_from 0 l (nat n) ! k = take (nat n) (drop (k * nat n) l)"
    using chunk_from_nth [OF pos, of _ 0 l] by simp
  moreover have "\<forall>c \<in> set (butlast (chunk_from 0 l (nat n))). int (length c) = n"
    using chunk_from_butlast_length [OF pos, of _ 0 l] assms by auto
  ultimately show ?thesis by blast
qed

theorem utils_chunk_slices_witness:
  "(0::int) < 2 \<and> (\<exists>cs. utils_chunk [1, 2, 3, 4, 5 :: nat] 2 = Inr cs \<and> concat cs = [1, 2, 3, 4, 5]
      \<and> (\<forall>k < length cs. cs ! k = take (nat 2) (drop (k * nat 2) [1, 2, 3, 4, 5]))
      \<and> (\<forall>c \<in> set (butlast cs). int (length c) = 2))"
  using utils_chunk_slices [of 2 "[1, 2, 3, 4, 5 :: nat]"] by simp

section \<open>Malformed identifiers: what the extractors raise\<close>

lemma id_malformed_cases:
  assumes "id_malformed r"
  obtains (missing) kv where "r = PDict kv" "map_of kv (PStr ''id'') = None"
  | (undashed) kv s where "r = PDict kv" "map_of kv (PStr ''id'') = Some (PStr s)"
      "str_split CHR ''-'' s = [s]"
proof (cases r)
  case (PDict kv)
  show ?thesis
  proof (cases "map_of kv (PStr ''id'')")
    case None
    then show ?thesis using PDict missing by blast
  next
    case (Some v)
    then have "id_undashed v" using assms PDict by (simp add: id_malformed_def)
    then obtain s where "v = PStr s" "length (str_split CHR ''-'' s) < 2"
      by (cases v) simp_all
    then show ?thesis using PDict Some undashed str_split_short by blast
  qed
qed (use assms in \<open>simp_all add: id_malformed_def\<close>)

text \<open>
  C3, as the code has it.  For every raw record with a malformed id, the extractors that
  read the id raise: the canonical extractor when asked for \<open>np_id\<close> and \<open>year\<close>, the
  rebuilt/passim extractor in every mode, the entity and the language-identification
  extractor.  The exception is Python's KeyError when the id is missing and IndexError
  when it has no dash.  The canonical extractor without the include flag and the
  search-index extractor do not read the id: the field can be dropped from the record
  without changing their result.
\<close>

theorem malformed_id_raises:
  assumes "id_malformed r"
  shows "counts_for_canonical_issue r True = Inl (id_error r)
       \<and> counts_for_rebuilt r include_np passim = Inl (id_error r)
       \<and> entities_counts r = Inl (id_error r)
       \<and> langident_counts r = Inl (id_error r)
       \<and> counts_for_canonical_issue (PDict ((PStr ''id'', v) # kv')) False
           = counts_for_canonical_issue (PDict kv') False
       \<and> solr_text_counts (PDict ((PStr ''id'', v) # kv')) = solr_text_counts (PDict kv')"
proof -
  have ignore: "counts_for_canonical_issue (PDict ((PStr ''id'', v) # kv')) False
           = counts_for_canonical_issue (PDict kv') False
       \<and> solr_text_counts (PDict ((PStr ''id'', v) # kv')) = solr_text_counts (PDict kv')"
    by (simp add: counts_for_canonical_issue_def solr_text_counts_def)
  show ?thesis
    using assms
  proof (cases rule: id_malformed_cases)
    case (missing kv)
    then show ?thesis
      using ignore
      by (simp add: id_error_def id_component_def counts_for_canonical_issue_def
          counts_for_rebuilt_def entities_counts_def langident_counts_def)
  next
    case (undashed kv s)
    then show ?thesis
      using ignore
      by (simp add: id_error_def id_component_def py_index_def counts_for_canonical_issue_def
          counts_for_rebuilt_def entities_counts_def langident_counts_def)
  qed
qed

theorem malformed_id_raises_witness:
  "id_malformed nzz_record
   \<and> counts_for_canonical_issue nzz_record True = Inl IndexError
   \<and> counts_for_rebuilt nzz_record False False = Inl IndexError
   \<and> entities_counts nzz_record = Inl IndexError
   \<and> langident_counts nzz_record = Inl IndexError
   \<and> id_malformed (PDict [])
   \<and> counts_for_canonical_issue (PDict []) True = Inl KeyError
   \<and> counts_for_rebuilt (PDict []) True True = Inl KeyError
   \<and> entities_counts (PDict []) = Inl KeyError
   \<and> langident_counts (PDict []) = Inl KeyError"
proof -
  have a: "id_malformed nzz_record" by (simp add: id_malformed_def nzz_record_def)
  have b: "id_malformed (PDict [])" by (simp add: id_malformed_def)
  have e1: "id_error nzz_record = IndexError" by (simp add: id_error_def nzz_record_def)
  have e2: "id_error (PDict []) = KeyError" by (simp add: id_error_def)
  show ?thesis
    using a b malformed_id_raises [OF a, of False False] malformed_id_raises [OF b, of True True]
    by (simp add: e1 e2)
qed

text \<open>
  The claim as the specification states it fails: for the id \<open>"NZZ"\<close> the canonical
  extractor, called as by default without the include flag, returns a Count Record.
\<close>

theorem malformed_id_counterexample:
  "id_malformed nzz_record
   \<and> counts_for_canonical_issue nzz_record False =
       Inr [(''issues'', PInt 1), (''pages'', PInt 1), (''content_items_out'', PInt 0),
            (''images'', PInt 0)]"
  by (simp add: id_malformed_def nzz_record_def counts_for_canonical_issue_def py_set_def
      dict_update_def)

section \<open>Properties of the engine\<close>

lemma map_all_map: "(\<And>x. x \<in> set xs \<Longrightarrow> f x = Inr (g x)) \<Longrightarrow> map_all f xs = Inr (map g xs)"
  by (induction xs) simp_all


lemma map_all_Inr_nth:
  "map_all f xs = Inr ys \<Longrightarrow> i < length xs \<Longrightarrow> f (xs ! i) = Inr (ys ! i)"
proof (induction xs arbitrary: ys i)
  case Nil
  then show ?case by simp
next
  case (Cons x xs)
  then obtain y ys' where y: "f x = Inr y" "map_all f xs = Inr ys'" "ys = y # ys'"
    by (auto simp: then_do_eq_Inr)
  show ?case
  proof (cases i)
    case 0
    then show ?thesis using y by simp
  next
    case (Suc j)
    then show ?thesis using y Cons.IH [of ys' j] Cons.prems by simp
  qed
qed

lemma map_all_Inr_set:
  "map_all f xs = Inr ys \<Longrightarrow> x \<in> set xs \<Longrightarrow> \<exists>y \<in> set ys. f x = Inr y"
  by (induction xs arbitrary: ys) (auto simp: then_do_eq_Inr)

lemma map_all_Inr_set_rev:
  "map_all f xs = Inr ys \<Longrightarrow> y \<in> set ys \<Longrightarrow> \<exists>x \<in> set xs. f x = Inr y"
  by (induction xs arbitrary: ys) (auto simp: then_do_eq_Inr)

lemma map_all_Inl:
  assumes "x \<in> set xs" "f x = Inl e" "\<forall>y \<in> set xs. \<forall>e'. f y = Inl e' \<longrightarrow> e' = e"
  shows "map_all f xs = Inl e"
  using assms
proof (induction xs)
  case Nil
  then show ?case by simp
next
  case (Cons a xs)
  show ?case
  proof (cases "f a")
    case (Inl e')
    then have "e' = e" using Cons.prems(3) by auto
    then show ?thesis using Inl by simp
  next
    case (Inr b)
    then have "x \<in> set xs" using Cons.prems(1,2) by auto
    moreover have "\<forall>y \<in> set xs. \<forall>e'. f y = Inl e' \<longrightarrow> e' = e"
      using Cons.prems(3) by auto
    ultimately have "map_all f xs = Inl e" using Cons.IH Cons.prems(2) by blast
    then show ?thesis using Inr by simp
  qed
qed

lemma sort_remdups_cong:
  fixes xs ys :: "'a::linorder list"
  shows "set xs = set ys \<Longrightarrow> sort (remdups xs) = sort (remdups ys)"
  by (metis sorted_list_of_set_sort_remdups)

lemma set_map_filter: "set (List.map_filter f xs) = {y. \<exists>x \<in> set xs. f x = Some y}"
  by (induction xs) (auto split: option.splits)

lemma set_group_keys:
  "set (group_keys by rows) = {k. \<exists>r \<in> set rows. row_key by r = Some k}"
  by (auto simp: group_keys_def set_map_filter)

lemma distinct_group_keys [simp]: "distinct (group_keys by rows)"
  by (simp add: group_keys_def)

lemma sorted_group_keys [simp]: "sorted (group_keys by rows)"
  by (simp add: group_keys_def)

lemma group_rows_Nil: "k \<notin> set (group_keys by p) \<Longrightarrow> group_rows by k p = []"
  by (auto simp: set_group_keys group_rows_def filter_empty_conv)

lemma group_rows_append: "group_rows by k (p @ q) = group_rows by k p @ group_rows by k q"
  by (simp add: group_rows_def)

lemma group_rows_concat: "group_rows by k (concat df) = concat (map (group_rows by k) df)"
  by (induction df) (simp_all add: group_rows_append, simp add: group_rows_def)

lemma set_group_rows: "set (group_rows by k rows) = {r \<in> set rows. row_key by r = Some k}"
  by (simp add: group_rows_def)

lemma filter_keyed_distinct:
  "distinct ks \<Longrightarrow>
   filter (\<lambda>e. fst e = k) (map (\<lambda>k'. (k', g k')) ks) = (if k \<in> set ks then [(k, g k)] else [])"
  by (induction ks) auto

lemma group_keys_concat:
  "sort (remdups (concat (map (group_keys by) df))) = group_keys by (concat df)"
proof -
  have "set (concat (map (group_keys by) df)) = set (List.map_filter (row_key by) (concat df))"
    by (auto simp: set_group_keys set_map_filter)
  then show ?thesis
    unfolding group_keys_def [where rows = "concat df"] by (rule sort_remdups_cong)
qed

text \<open>
  The entries that the partitions contribute: for every partition, one entry per group
  of the partition.  Regrouping them gives one entry per group of the whole frame.
\<close>

lemma regroup_partitions:
  "regroup f (concat (map (\<lambda>p. map (\<lambda>k. (k, h k (group_rows by k p))) (group_keys by p)) df))
   = map (\<lambda>k. (k, f (concat (map (\<lambda>p. if k \<in> set (group_keys by p)
                                         then [h k (group_rows by k p)] else []) df))))
       (group_keys by (concat df))"
proof -
  let ?E = "\<lambda>p. map (\<lambda>k. (k, h k (group_rows by k p))) (group_keys by p)"
  have keys: "map fst (concat (map ?E df)) = concat (map (group_keys by) df)"
    by (simp add: map_concat comp_def)
  have vals: "map snd (filter (\<lambda>e. fst e = k) (concat (map ?E df)))
      = concat (map (\<lambda>p. if k \<in> set (group_keys by p) then [h k (group_rows by k p)] else []) df)"
    for k
    by (induction df) (simp_all add: filter_keyed_distinct)
  show ?thesis
    unfolding regroup_def keys group_keys_concat vals ..
qed

lemma series_sum_eq:
  "series_sum by col df
   = map (\<lambda>k. (k, sum_list (map (\<lambda>r. int_of (cell r col)) (group_rows by k (concat df)))))
       (group_keys by (concat df))"
proof -
  have chunk_eq: "sum_chunk (series_groupby by col p)
      = map (\<lambda>k. (k, sum_list (map (\<lambda>r. int_of (cell r col)) (group_rows by k p))))
          (group_keys by p)" for p
    by (simp add: sum_chunk_def series_groupby_def comp_def)
  have part: "sum_list (concat (map (\<lambda>p. if k \<in> set (group_keys by p)
        then [sum_list (map (\<lambda>r. int_of (cell r col)) (group_rows by k p))] else []) df))
      = sum_list (map (\<lambda>r. int_of (cell r col)) (group_rows by k (concat df)))" for k
    by (induction df) (simp_all add: group_rows_Nil group_rows_append, simp add: group_rows_def)
  show ?thesis
    unfolding series_sum_def chunk_eq
      regroup_partitions [where h = "\<lambda>k rows. sum_list (map (\<lambda>r. int_of (cell r col)) rows)"] part ..
qed

lemma series_list_eq: "series_list by col df = series_groupby by col (concat df)"
proof -
  have part: "concat (concat (map (\<lambda>p. if k \<in> set (group_keys by p)
        then [map (\<lambda>r. cell r col) (group_rows by k p)] else []) df))
      = map (\<lambda>r. cell r col) (group_rows by k (concat df))" for k
    by (induction df) (simp_all add: group_rows_Nil group_rows_append, simp add: group_rows_def)
  have sg: "series_groupby by col = (\<lambda>p. map (\<lambda>k. (k, map (\<lambda>r. cell r col) (group_rows by k p))) (group_keys by p))"
    by (rule ext) (simp add: series_groupby_def)
  show ?thesis
    unfolding series_list_def sg
      regroup_partitions [where h = "\<lambda>k rows. map (\<lambda>r. cell r col) rows"] part ..
qed


section \<open>Properties of tunique\<close>

lemma py_norm_idem [simp]: "py_norm (py_norm v) = py_norm v"
  by (cases v) simp_all

lemma py_hashable_norm [simp]: "py_hashable (py_norm v) = py_hashable v"
  by (cases v) simp_all

lemma py_set_hashable: "list_all py_hashable xs \<Longrightarrow> py_set xs = Inr (remdups (map py_norm xs))"
  by (simp add: py_set_def)

lemma py_set_unhashable: "\<not> list_all py_hashable xs \<Longrightarrow> py_set xs = Inl TypeError"
  by (simp add: py_set_def)

lemma length_py_set: "int (length (remdups (map py_norm xs))) = distinct_count xs"
  by (simp add: distinct_count_def length_remdups_card_conv)

lemma distinct_count_cong: "py_norm ` set xs = py_norm ` set ys \<Longrightarrow> distinct_count xs = distinct_count ys"
  by (simp add: distinct_count_def)

lemma keyed_py_set_hashable:
  assumes "\<forall>e \<in> set s. list_all py_hashable (snd e)"
  shows "map_all (\<lambda>(k, x). then_do (py_set x) (\<lambda>d. Inr (k, g d))) s
         = Inr (map (\<lambda>(k, x). (k, g (remdups (map py_norm x)))) s)"
  using assms by (intro map_all_map) (auto simp: py_set_hashable)

lemma keyed_py_set_unhashable:
  assumes "e \<in> set s" "\<not> list_all py_hashable (snd e)"
  shows "map_all (\<lambda>(k, x). then_do (py_set x) (\<lambda>d. Inr (k, g d))) s = Inl TypeError"
proof (rule map_all_Inl [OF assms(1)])
  show "(case e of (k, x) \<Rightarrow> then_do (py_set x) (\<lambda>d. Inr (k, g d))) = Inl TypeError"
    using assms(2) by (cases e) (simp add: py_set_unhashable)
  show "\<forall>y\<in>set s. \<forall>e'. (case y of (k, x) \<Rightarrow> then_do (py_set x) (\<lambda>d. Inr (k, g d))) = Inl e'
          \<longrightarrow> e' = TypeError"
    by (auto simp: py_set_def split: if_splits)
qed

lemma grouped_hashable_append [simp]:
  "grouped_hashable by col (p @ q) = (grouped_hashable by col p \<and> grouped_hashable by col q)"
  by (simp add: grouped_hashable_def)

lemma grouped_hashable_concat:
  "grouped_hashable by col (concat df) = (\<forall>p \<in> set df. grouped_hashable by col p)"
  by (induction df) (simp_all add: grouped_hashable_def)

lemma series_groupby_hashable:
  "(\<forall>e \<in> set (series_groupby by col p). list_all py_hashable (snd e)) = grouped_hashable by col p"
proof
  assume h: "\<forall>e \<in> set (series_groupby by col p). list_all py_hashable (snd e)"
  show "grouped_hashable by col p"
    unfolding grouped_hashable_def list_all_iff
  proof
    fix r assume r: "r \<in> set p"
    show "row_key by r = None \<or> py_hashable (cell r col)"
    proof (cases "row_key by r")
      case None
      then show ?thesis by simp
    next
      case (Some k)
      then have k: "k \<in> set (group_keys by p)" using r by (auto simp: set_group_keys)
      have "r \<in> set (group_rows by k p)" using r Some by (simp add: set_group_rows)
      moreover have "list_all py_hashable (map (\<lambda>r. cell r col) (group_rows by k p))"
        using h k by (force simp: series_groupby_def)
      ultimately show ?thesis by (auto simp: list_all_iff)
    qed
  qed
next
  assume g: "grouped_hashable by col p"
  show "\<forall>e \<in> set (series_groupby by col p). list_all py_hashable (snd e)"
    using g by (auto simp: series_groupby_def grouped_hashable_def list_all_iff set_group_rows)
qed

lemma chunk_hashable:
  assumes "grouped_hashable by col p"
  shows "chunk (series_groupby by col p)
         = Inr (map (\<lambda>k. (k, remdups (map py_norm (map (\<lambda>r. cell r col) (group_rows by k p)))))
                  (group_keys by p))"
proof -
  have "chunk (series_groupby by col p)
      = Inr (map (\<lambda>(k, x). (k, remdups (map py_norm x))) (series_groupby by col p))"
    unfolding chunk_def
    using keyed_py_set_hashable [where g = "\<lambda>d. d"] assms series_groupby_hashable by blast
  then show ?thesis by (simp add: series_groupby_def comp_def)
qed

lemma chunk_unhashable:
  assumes "\<not> grouped_hashable by col p"
  shows "chunk (series_groupby by col p) = Inl TypeError"
proof -
  obtain e where "e \<in> set (series_groupby by col p)" "\<not> list_all py_hashable (snd e)"
    using assms series_groupby_hashable by blast
  then show ?thesis
    unfolding chunk_def by (rule keyed_py_set_unhashable [where g = "\<lambda>d. d"])
qed

lemma chunk_error: "chunk s = Inl e \<Longrightarrow> e = TypeError"
proof -
  assume a: "chunk s = Inl e"
  show ?thesis
  proof (cases "\<forall>e \<in> set s. list_all py_hashable (snd e)")
    case True
    then show ?thesis using a keyed_py_set_hashable [where g = "\<lambda>d. d", of s]
      by (simp add: chunk_def)
  next
    case False
    then obtain x where "x \<in> set s" "\<not> list_all py_hashable (snd x)" by blast
    then show ?thesis using a keyed_py_set_unhashable [where g = "\<lambda>d. d", of x s]
      by (simp add: chunk_def)
  qed
qed

lemma finalize_series_groupby:
  "finalize (series_groupby by col rows)
   = (if grouped_hashable by col rows
      then Inr (map (\<lambda>k. (k, distinct_count (map (\<lambda>r. cell r col) (group_rows by k rows))))
                  (group_keys by rows))
      else Inl TypeError)"
proof (cases "grouped_hashable by col rows")
  case True
  then have "finalize (series_groupby by col rows)
      = Inr (map (\<lambda>(k, x). (k, int (length (remdups (map py_norm x))))) (series_groupby by col rows))"
    unfolding finalize_def
    using keyed_py_set_hashable [where g = "\<lambda>d. int (length d)"] series_groupby_hashable by blast
  then show ?thesis using True by (simp add: series_groupby_def comp_def length_py_set)
next
  case False
  then obtain e where "e \<in> set (series_groupby by col rows)" "\<not> list_all py_hashable (snd e)"
    using series_groupby_hashable by blast
  then have "finalize (series_groupby by col rows) = Inl TypeError"
    unfolding finalize_def by (rule keyed_py_set_unhashable [where g = "\<lambda>d. int (length d)"])
  then show ?thesis using False by simp
qed


lemma set_chunk_values:
  "set (concat (concat (map (\<lambda>p. if k \<in> set (group_keys by p)
           then [remdups (map py_norm (map (\<lambda>r. cell r col) (group_rows by k p)))] else []) df)))
   = py_norm ` (\<lambda>r. cell r col) ` set (group_rows by k (concat df))"
proof (induction df)
  case Nil
  then show ?case by (simp add: group_rows_def)
next
  case (Cons p df)
  have "set (group_rows by k (concat (p # df)))
      = set (group_rows by k p) \<union> set (group_rows by k (concat df))"
    by (simp add: group_rows_append)
  then show ?case using Cons by (auto simp: group_rows_Nil)
qed

lemma tunique_eq: "tunique by col df = finalize (series_groupby by col (concat df))"
proof (cases "grouped_hashable by col (concat df)")
  case True
  let ?h = "\<lambda>k rows. remdups (map py_norm (map (\<lambda>r. cell r col) rows))"
  let ?X = "\<lambda>k. concat (concat (map (\<lambda>p. if k \<in> set (group_keys by p)
           then [?h k (group_rows by k p)] else []) df))"
  have parts: "\<forall>p \<in> set df. grouped_hashable by col p"
    using True by (simp add: grouped_hashable_concat)
  have chunks: "map_all (\<lambda>part. chunk (series_groupby by col part)) df
      = Inr (map (\<lambda>p. map (\<lambda>k. (k, ?h k (group_rows by k p))) (group_keys by p)) df)"
    using parts by (intro map_all_map) (simp add: chunk_hashable)
  have agg_eq: "agg (concat (map (\<lambda>p. map (\<lambda>k. (k, ?h k (group_rows by k p))) (group_keys by p)) df))
      = map (\<lambda>k. (k, ?X k)) (group_keys by (concat df))"
    unfolding agg_def by (rule regroup_partitions)
  have hash: "list_all py_hashable (?X k)" if "k \<in> set (group_keys by (concat df))" for k
  proof -
    have "\<forall>r \<in> set (group_rows by k (concat df)). py_hashable (cell r col)"
      using True by (fastforce simp: grouped_hashable_def list_all_iff set_group_rows)
    then show ?thesis
      unfolding list_all_iff set_chunk_values by auto
  qed
  have count: "distinct_count (?X k)
      = distinct_count (map (\<lambda>r. cell r col) (group_rows by k (concat df)))" for k
  proof (rule distinct_count_cong)
    have "py_norm ` set (?X k)
        = py_norm ` py_norm ` (\<lambda>r. cell r col) ` set (group_rows by k (concat df))"
      by (simp only: set_chunk_values)
    also have "\<dots> = py_norm ` set (map (\<lambda>r. cell r col) (group_rows by k (concat df)))"
      by (simp add: image_image)
    finally show "py_norm ` set (?X k)
        = py_norm ` set (map (\<lambda>r. cell r col) (group_rows by k (concat df)))" .
  qed
  have "finalize (map (\<lambda>k. (k, ?X k)) (group_keys by (concat df)))
      = Inr (map (\<lambda>(k, x). (k, int (length (remdups (map py_norm x)))))
               (map (\<lambda>k. (k, ?X k)) (group_keys by (concat df))))"
    unfolding finalize_def
    by (rule keyed_py_set_hashable [where g = "\<lambda>d. int (length d)"]) (auto simp: hash)
  also have "\<dots> = Inr (map (\<lambda>k. (k, distinct_count (map (\<lambda>r. cell r col)
                 (group_rows by k (concat df))))) (group_keys by (concat df)))"
    by (simp add: comp_def length_py_set count)
  finally have fin: "finalize (map (\<lambda>k. (k, ?X k)) (group_keys by (concat df)))
      = Inr (map (\<lambda>k. (k, distinct_count (map (\<lambda>r. cell r col)
                 (group_rows by k (concat df))))) (group_keys by (concat df)))" .
  have "tunique by col df
      = Inr (map (\<lambda>k. (k, distinct_count (map (\<lambda>r. cell r col)
                 (group_rows by k (concat df))))) (group_keys by (concat df)))"
    unfolding tunique_def chunks then_do_Inr agg_eq by (rule fin)
  then show ?thesis using True by (simp add: finalize_series_groupby)
next
  case False
  then obtain p where p: "p \<in> set df" "\<not> grouped_hashable by col p"
    by (auto simp: grouped_hashable_concat)
  have "map_all (\<lambda>part. chunk (series_groupby by col part)) df = Inl TypeError"
  proof (rule map_all_Inl [OF p(1)])
    show "chunk (series_groupby by col p) = Inl TypeError"
      using p(2) by (rule chunk_unhashable)
    show "\<forall>y\<in>set df. \<forall>e'. chunk (series_groupby by col y) = Inl e' \<longrightarrow> e' = TypeError"
      using chunk_error by blast
  qed
  then show ?thesis using False by (simp add: tunique_def finalize_series_groupby)
qed


lemma finalize_series_groupby_cong:
  assumes "set rows' = set rows"
  shows "finalize (series_groupby by col rows') = finalize (series_groupby by col rows)"
proof -
  have keys: "group_keys by rows' = group_keys by rows"
    unfolding group_keys_def
    by (rule sort_remdups_cong) (simp add: set_map_filter assms)
  have hash: "grouped_hashable by col rows' = grouped_hashable by col rows"
    by (simp add: grouped_hashable_def list_all_iff assms)
  have count: "distinct_count (map (\<lambda>r. cell r col) (group_rows by k rows'))
      = distinct_count (map (\<lambda>r. cell r col) (group_rows by k rows))" for k
    by (rule distinct_count_cong) (simp add: set_group_rows assms)
  show ?thesis
    by (simp add: finalize_series_groupby keys hash count)
qed

text \<open>
  C1.  For every data frame, however its rows are split into partitions, and every
  column: running \<open>chunk\<close> on each partition, \<open>agg\<close> on the chunk results and \<open>finalize\<close>
  on the outcome gives what \<open>finalize\<close>, that is \<open>len(set(x))\<close>, gives on the groups of
  the unpartitioned rows; when the grouped cells are hashable this is, for every group,
  the number of distinct values of the column over all rows of the group; and two
  partitionings of the same rows give the same result.
\<close>

theorem tunique_counts_distinct_values:
  "tunique by col df = finalize (series_groupby by col (concat df))
   \<and> (grouped_hashable by col (concat df) \<longrightarrow>
        tunique by col df
        = Inr (map (\<lambda>k. (k, distinct_count (map (\<lambda>r. cell r col) (group_rows by k (concat df)))))
                 (group_keys by (concat df))))
   \<and> (mset (concat df') = mset (concat df) \<longrightarrow> tunique by col df' = tunique by col df)"
proof (intro conjI impI)
  show "tunique by col df = finalize (series_groupby by col (concat df))"
    by (rule tunique_eq)
next
  assume "grouped_hashable by col (concat df)"
  then show "tunique by col df
        = Inr (map (\<lambda>k. (k, distinct_count (map (\<lambda>r. cell r col) (group_rows by k (concat df)))))
                 (group_keys by (concat df)))"
    by (simp add: tunique_eq finalize_series_groupby)
next
  assume "mset (concat df') = mset (concat df)"
  then have "set (concat df') = set (concat df)" by (rule mset_eq_setD)
  then show "tunique by col df' = tunique by col df"
    unfolding tunique_eq by (rule finalize_series_groupby_cong)
qed

theorem tunique_counts_distinct_values_witness:
  "grouped_hashable [''year''] ''issues'' (concat issue_rows_split_a)
   \<and> mset (concat issue_rows_split_b) = mset (concat issue_rows_split_a)
   \<and> tunique [''year''] ''issues'' issue_rows_split_a
       = Inr [([KStr ''1950''], 2), ([KStr ''1951''], 1)]
   \<and> tunique [''year''] ''issues'' issue_rows_split_b
       = Inr [([KStr ''1950''], 2), ([KStr ''1951''], 1)]"
proof -
  have h: "grouped_hashable [''year''] ''issues'' (concat issue_rows_split_a)"
    by code_simp
  have m: "mset (concat issue_rows_split_b) = mset (concat issue_rows_split_a)"
    by (simp add: issue_rows_split_a_def issue_rows_split_b_def issue_row_def)
  have v: "map (\<lambda>k. (k, distinct_count (map (\<lambda>r. cell r ''issues'')
               (group_rows [''year''] k (concat issue_rows_split_a)))))
             (group_keys [''year''] (concat issue_rows_split_a))
           = [([KStr ''1950''], 2), ([KStr ''1951''], 1)]"
    by code_simp
  note t = tunique_counts_distinct_values
      [of "[''year'']" "''issues''" issue_rows_split_a issue_rows_split_b]
  have a: "tunique [''year''] ''issues'' issue_rows_split_a
       = Inr [([KStr ''1950''], 2), ([KStr ''1951''], 1)]"
    using t h v by metis
  have b: "tunique [''year''] ''issues'' issue_rows_split_b
       = tunique [''year''] ''issues'' issue_rows_split_a"
    using t m by blast
  show ?thesis using h m a b by simp
qed


section \<open>The client handle\<close>

text \<open>
  C9.  For every input collection and every pipeline, the result with a client handle is
  the result without one: the handle only makes the pipeline display the progress of the
  final collection, and without it the pipeline computes the same result silently.
\<close>

theorem client_only_reports_progress:
  "snd (compute_stats_in_canonical_bag bag (Some c)) = snd (compute_stats_in_canonical_bag bag None)
   \<and> snd (compute_stats_in_rebuilt_bag bag key include_np passim (Some c))
       = snd (compute_stats_in_rebuilt_bag bag key include_np passim None)
   \<and> snd (compute_stats_in_entities_bag bag (Some c)) = snd (compute_stats_in_entities_bag bag None)
   \<and> snd (compute_stats_in_langident_bag parse bag (Some c))
       = snd (compute_stats_in_langident_bag parse bag None)
   \<and> snd (compute_stats_in_solr_text_bag bag (Some c)) = snd (compute_stats_in_solr_text_bag bag None)
   \<and> fst (compute_stats_in_canonical_bag bag (Some c)) = [ProgressBar]
   \<and> fst (compute_stats_in_rebuilt_bag bag key include_np passim (Some c)) = [ProgressBar]
   \<and> fst (compute_stats_in_entities_bag bag (Some c)) = [ProgressBar]
   \<and> fst (compute_stats_in_langident_bag parse bag (Some c)) = [ProgressBar]
   \<and> fst (compute_stats_in_solr_text_bag bag (Some c)) = [ProgressBar]
   \<and> fst (compute_stats_in_canonical_bag bag None) = []
   \<and> fst (compute_stats_in_rebuilt_bag bag key include_np passim None) = []
   \<and> fst (compute_stats_in_entities_bag bag None) = []
   \<and> fst (compute_stats_in_langident_bag parse bag None) = []
   \<and> fst (compute_stats_in_solr_text_bag bag None) = []"
  by (simp add: compute_stats_in_canonical_bag_def compute_stats_in_rebuilt_bag_def
      compute_stats_in_entities_bag_def compute_stats_in_langident_bag_def
      compute_stats_in_solr_text_bag_def progress_def Let_def)

section \<open>The entity pipeline aggregates exploded rows\<close>

text \<open>
  C2 at a single entity item with two mentions linked to \<open>Q1\<close> and \<open>Q2\<close>.  Its Count Record
  has \<open>content_items_out = 1\<close> and \<open>ne_mentions = 2\<close>; \<open>explode\<close> makes two rows of it, one
  for each entity, and the sums run over the rows: the Statistics Record of the group has
  \<open>content_items_out = 2\<close> and \<open>ne_mentions = 4\<close>.
\<close>

theorem entities_sums_count_exploded_rows:
  "entities_counts (entity_item ''GDL-1950-01-01-a-i0001'' [PStr ''Q1'', PStr ''Q2''])
     = Inr [(''np_id'', PStr ''GDL''), (''year'', PStr ''1950''),
            (''issues'', PStr ''GDL-1950-01-01-a''), (''content_items_out'', PInt 1),
            (''ne_mentions'', PInt 2), (''ne_entities'', PList [PStr ''Q1'', PStr ''Q2''])]
   \<and> snd (compute_stats_in_entities_bag
              [[entity_item ''GDL-1950-01-01-a-i0001'' [PStr ''Q1'', PStr ''Q2'']]] None)
     = Inr [[(''np_id'', PStr ''GDL''), (''year'', PStr ''1950''), (''issues'', PInt 1),
             (''content_items_out'', PInt 2), (''ne_mentions'', PInt 4),
             (''ne_entities'', PInt 2)]]"
  by code_simp

text \<open>
  C6 at two items of one group, the first with one mention linked to \<open>Q1\<close>, the second
  with no mention.  \<open>explode\<close> turns the empty list of the second item into a row with the
  missing value \<open>NaN\<close>, which \<open>tunique\<close> counts as a value: the aggregated \<open>ne_entities\<close> is
  2, for one distinct identifier.
\<close>

theorem entities_count_missing_value:
  "entities_counts (entity_item ''GDL-1950-01-01-a-i0002'' [])
     = Inr [(''np_id'', PStr ''GDL''), (''year'', PStr ''1950''),
            (''issues'', PStr ''GDL-1950-01-01-a''), (''content_items_out'', PInt 1),
            (''ne_mentions'', PInt 0), (''ne_entities'', PList [])]
   \<and> snd (compute_stats_in_entities_bag
              [[entity_item ''GDL-1950-01-01-a-i0001'' [PStr ''Q1''],
                entity_item ''GDL-1950-01-01-a-i0002'' []]] None)
     = Inr [[(''np_id'', PStr ''GDL''), (''year'', PStr ''1950''), (''issues'', PInt 1),
             (''content_items_out'', PInt 2), (''ne_mentions'', PInt 1),
             (''ne_entities'', PInt 2)]]"
  by code_simp

text \<open>
  The example of the specification: two items with the entity lists \<open>["Q1", "Q2"]\<close> and
  \<open>["Q2", "Q3"]\<close> give the distinct count 3.
\<close>

lemma entities_example_three_distinct:
  "snd (compute_stats_in_entities_bag
          [[entity_item ''GDL-1950-01-01-a-i0001'' [PStr ''Q1'', PStr ''Q2'']],
           [entity_item ''GDL-1950-01-01-a-i0002'' [PStr ''Q2'', PStr ''Q3'']]] None)
     = Inr [[(''np_id'', PStr ''GDL''), (''year'', PStr ''1950''), (''issues'', PInt 1),
             (''content_items_out'', PInt 4), (''ne_mentions'', PInt 8),
             (''ne_entities'', PInt 3)]]"
  by code_simp


section \<open>The canonical extractor\<close>

lemma map_py_norm_str: "list_all is_str xs \<Longrightarrow> map py_norm xs = xs"
proof (induction xs)
  case Nil
  then show ?case by simp
next
  case (Cons x xs)
  then show ?case by (cases x) simp_all
qed

lemma hashable_str: "list_all is_str xs \<Longrightarrow> list_all py_hashable xs"
proof (induction xs)
  case Nil
  then show ?case by simp
next
  case (Cons x xs)
  then show ?case by (cases x) simp_all
qed

lemma py_set_str: "list_all is_str xs \<Longrightarrow> py_set xs = Inr (remdups xs)"
  by (simp add: py_set_hashable hashable_str map_py_norm_str)

lemma image_items_eq:
  "list_all (\<lambda>it. \<not> isl (item_type it)) items \<Longrightarrow>
   image_items items = Inr (filter (\<lambda>it. item_type it = Inr (PStr ''image'')) items)"
proof (induction items)
  case Nil
  then show ?case by simp
next
  case (Cons it items)
  then obtain tp where tp: "item_type it = Inr tp"
    by (cases "item_type it") simp_all
  then obtain m where m: "getitem it ''m'' = Inr m" "getitem m ''tp'' = Inr tp"
    by (auto simp: item_type_def then_do_eq_Inr)
  show ?case using Cons tp m by simp
qed

lemma getitem_Inr_dict: "getitem r k = Inr v \<Longrightarrow> \<exists>kv. r = PDict kv \<and> map_of kv (PStr k) = Some v"
  by (cases r) (auto split: option.splits)

lemma id_component_wf:
  assumes "getitem r ''id'' = Inr (PStr i)" "n < length (str_split CHR ''-'' i)"
  shows "id_component r n = Inr (str_split CHR ''-'' i ! n)"
  using assms by (simp add: id_component_def py_index_def)

text \<open>
  C4.  For every well-formed canonical issue (its id is a string with at least two
  dash-separated components, \<open>pp\<close> is a list of page ids that are strings, \<open>i\<close> is a list
  of content items that each have a type \<open>m.tp\<close>), the canonical extractor returns a Count
  Record with \<open>issues = 1\<close>, \<open>pages\<close> the number of distinct page ids and \<open>images\<close> the
  number of content items of type \<open>"image"\<close>; \<open>np_id\<close> and \<open>year\<close>, the first two components
  of the id, are in the record exactly when the include flag is set.  The two issues
  \<open>NZZ-1900-01-01-a\<close> (2 distinct pages, 1 image) and \<open>NZZ-1900-01-02-a\<close> (3 distinct
  pages, no image) aggregate to one record for (NZZ, 1900) with \<open>issues = 2\<close>,
  \<open>pages = 5\<close>, \<open>images = 1\<close>.
\<close>

theorem canonical_counts:
  assumes "getitem issue ''id'' = Inr (PStr i)" "2 \<le> length (str_split CHR ''-'' i)"
    and "getitem issue ''pp'' = Inr (PList pp)" "list_all is_str pp"
    and "getitem issue ''i'' = Inr (PList items)" "list_all (\<lambda>it. \<not> isl (item_type it)) items"
  shows "(\<exists>counts. counts_for_canonical_issue issue include_np_yr = Inr counts
      \<and> map_of counts ''issues'' = Some (PInt 1)
      \<and> map_of counts ''pages'' = Some (PInt (int (card (set pp))))
      \<and> map_of counts ''images''
          = Some (PInt (int (length (filter (\<lambda>it. item_type it = Inr (PStr ''image'')) items))))
      \<and> (''np_id'' \<in> fst ` set counts \<longleftrightarrow> include_np_yr)
      \<and> (''year'' \<in> fst ` set counts \<longleftrightarrow> include_np_yr)
      \<and> (include_np_yr \<longrightarrow>
            map_of counts ''np_id'' = Some (PStr (str_split CHR ''-'' i ! 0))
          \<and> map_of counts ''year'' = Some (PStr (str_split CHR ''-'' i ! 1))))
    \<and> snd (compute_stats_in_canonical_bag [[nzz_issue_1], [nzz_issue_2]] None)
        = Inr [[(''np_id'', PStr ''NZZ''), (''year'', PStr ''1900''), (''issues'', PInt 2),
                (''pages'', PInt 5), (''content_items_out'', PInt 3), (''images'', PInt 1)]]"
proof -
  have example: "snd (compute_stats_in_canonical_bag [[nzz_issue_1], [nzz_issue_2]] None)
        = Inr [[(''np_id'', PStr ''NZZ''), (''year'', PStr ''1900''), (''issues'', PInt 2),
                (''pages'', PInt 5), (''content_items_out'', PInt 3), (''images'', PInt 1)]]"
    by code_simp
  have c0: "id_component issue 0 = Inr (str_split CHR ''-'' i ! 0)"
    using assms(1,2) by (intro id_component_wf) simp_all
  have c1: "id_component issue 1 = Inr (str_split CHR ''-'' i ! 1)"
    using assms(1,2) by (intro id_component_wf) simp_all
  have pages: "py_set pp = Inr (remdups pp)" using assms(4) by (rule py_set_str)
  have images: "image_items items
      = Inr (filter (\<lambda>it. item_type it = Inr (PStr ''image'')) items)"
    using assms(6) by (rule image_items_eq)
  show ?thesis
  proof (cases include_np_yr)
    case True
    then show ?thesis
      using c0 c1 assms(3,5) pages images example
      by (simp add: counts_for_canonical_issue_def dict_update_def length_remdups_card_conv)
  next
    case False
    then show ?thesis
      using assms(3,5) pages images example
      by (simp add: counts_for_canonical_issue_def dict_update_def length_remdups_card_conv)
  qed
qed

theorem canonical_counts_witness:
  "\<exists>counts. counts_for_canonical_issue nzz_issue_1 True = Inr counts
      \<and> map_of counts ''issues'' = Some (PInt 1)
      \<and> map_of counts ''pages'' = Some (PInt 2)
      \<and> map_of counts ''images'' = Some (PInt 1)
      \<and> map_of counts ''np_id'' = Some (PStr ''NZZ'')
      \<and> map_of counts ''year'' = Some (PStr ''1900'')"
proof -
  let ?pp = "[PStr ''NZZ-1900-01-01-a-p0001'', PStr ''NZZ-1900-01-01-a-p0002'',
              PStr ''NZZ-1900-01-01-a-p0001'']"
  let ?items = "[content_item ''image'', content_item ''article'']"
  have h1: "getitem nzz_issue_1 ''id'' = Inr (PStr ''NZZ-1900-01-01-a'')"
    by (simp add: nzz_issue_1_def)
  have h2: "2 \<le> length (str_split CHR ''-'' ''NZZ-1900-01-01-a'')" by simp
  have h3: "getitem nzz_issue_1 ''pp'' = Inr (PList ?pp)" by (simp add: nzz_issue_1_def)
  have h4: "list_all is_str ?pp" by simp
  have h5: "getitem nzz_issue_1 ''i'' = Inr (PList ?items)" by (simp add: nzz_issue_1_def)
  have h6: "list_all (\<lambda>it. \<not> isl (item_type it)) ?items"
    by (simp add: item_type_def content_item_def)
  have v1: "card (set ?pp) = 2" by code_simp
  have v2: "length (filter (\<lambda>it. item_type it = Inr (PStr ''image'')) ?items) = 1"
    by (simp add: item_type_def content_item_def)
  have v3: "str_split CHR ''-'' ''NZZ-1900-01-01-a'' ! 0 = ''NZZ''"
    "str_split CHR ''-'' ''NZZ-1900-01-01-a'' ! 1 = ''1900''" by simp_all
  show ?thesis
    using canonical_counts [OF h1 h2 h3 h4 h5 h6, of True] unfolding v1 v2 v3 by auto
qed


section \<open>The rebuilt extractor\<close>

lemma str_join_Cons: "ws \<noteq> [] \<Longrightarrow> str_join sep (w # ws) = w @ sep @ str_join sep ws"
  by (cases ws) simp_all

lemma str_join_split: "str_join [sep] (str_split sep s) = s"
proof (induction s)
  case Nil
  then show ?case by simp
next
  case (Cons c cs)
  obtain w ws where ws: "str_split sep cs = w # ws"
    by (cases "str_split sep cs") simp_all
  show ?case
  proof (cases "c = sep")
    case True
    then show ?thesis using Cons by (simp add: str_join_Cons)
  next
    case False
    then show ?thesis using Cons ws by (cases ws) simp_all
  qed
qed

lemma str_split_parts_no_sep: "w \<in> set (str_split sep s) \<Longrightarrow> sep \<notin> set w"
proof (induction s arbitrary: w)
  case Nil
  then show ?case by simp
next
  case (Cons c cs)
  obtain v vs where vs: "str_split sep cs = v # vs"
    by (cases "str_split sep cs") simp_all
  show ?case
  proof (cases "c = sep")
    case True
    then show ?thesis using Cons by auto
  next
    case False
    then have "w = c # v \<or> w \<in> set vs" using Cons.prems vs by simp
    then show ?thesis using Cons.IH [of v] Cons.IH [of w] vs False by auto
  qed
qed

lemma str_join_butlast:
  "2 \<le> length parts \<Longrightarrow> str_join sep parts = str_join sep (butlast parts) @ sep @ last parts"
proof (induction sep parts rule: str_join.induct)
  case (3 sep x y ys)
  show ?case
  proof (cases ys)
    case Nil
    then show ?thesis by simp
  next
    case (Cons z zs)
    then show ?thesis using 3 by simp
  qed
qed simp_all

lemma str_split_ws_tokens:
  "w \<in> set (str_split_ws s) \<Longrightarrow> w \<noteq> [] \<and> (\<forall>c \<in> set w. \<not> is_space c)"
proof (induction s arbitrary: w rule: str_split_ws.induct)
  case 1
  then show ?case by simp
next
  case (2 c cs)
  show ?case
  proof (cases "is_space c")
    case True
    then have "w \<in> set (str_split_ws cs)" using 2(3) by simp
    then show ?thesis by (rule 2(1) [OF True])
  next
    case False
    then have "w = c # takeWhile (\<lambda>d. \<not> is_space d) cs
        \<or> w \<in> set (str_split_ws (dropWhile (\<lambda>d. \<not> is_space d) cs))"
      using 2(3) by simp
    then show ?thesis
    proof
      assume "w = c # takeWhile (\<lambda>d. \<not> is_space d) cs"
      then show ?thesis using False by (auto dest: set_takeWhileD)
    next
      assume "w \<in> set (str_split_ws (dropWhile (\<lambda>d. \<not> is_space d) cs))"
      then show ?thesis by (rule 2(2) [OF False])
    qed
  qed
qed

lemma filter_takeWhile_same: "filter P (takeWhile P xs) = takeWhile P xs"
  by (induction xs) auto

lemma concat_str_split_ws: "concat (str_split_ws s) = filter (\<lambda>c. \<not> is_space c) s"
proof (induction s rule: str_split_ws.induct)
  case 1
  then show ?case by simp
next
  case (2 c cs)
  show ?case
  proof (cases "is_space c")
    case True
    then show ?thesis using 2(1) [OF True] by simp
  next
    case False
    have "filter (\<lambda>c. \<not> is_space c) cs
        = filter (\<lambda>c. \<not> is_space c) (takeWhile (\<lambda>d. \<not> is_space d) cs
            @ dropWhile (\<lambda>d. \<not> is_space d) cs)"
      by simp
    also have "\<dots> = takeWhile (\<lambda>d. \<not> is_space d) cs
        @ filter (\<lambda>c. \<not> is_space c) (dropWhile (\<lambda>d. \<not> is_space d) cs)"
      unfolding filter_append by (simp add: filter_takeWhile_same)
    finally show ?thesis using False 2(2) [OF False] by simp
  qed
qed


lemma py_in_dict_absent: "map_of kv (PStr k) = None \<Longrightarrow> py_in k (PDict kv) = Inr False"
  by (simp add: map_of_eq_None_iff)

lemma py_in_dict_present: "map_of kv (PStr k) = Some v \<Longrightarrow> py_in k (PDict kv) = Inr True"
  using map_of_eq_None_iff [of kv "PStr k"] by simp

text \<open>
  C5.  For every well-formed rebuilt or passim article (a dict whose id is a string with
  at least two dash-separated components and whose full text \<open>ft\<close> is absent or a
  string), the rebuilt extractor returns a Count Record with \<open>issues\<close> the issue id of
  the article, that is the id without its last dash-separated component and the dash
  before it, \<open>content_items_out = 1\<close> and the year; \<open>np_id\<close> is in the record exactly
  when asked for; \<open>ft_tokens\<close> is in the record exactly when the mode is not passim, and
  is then the number of white-space separated tokens of the full text, 0 when the field
  is absent.  Three articles of the issues \<open>GDL-1950-01-01-a\<close>, \<open>GDL-1950-01-01-a\<close> and
  \<open>GDL-1950-01-02-a\<close> with 10, 5 and 7 tokens aggregate for (GDL, 1950) to
  \<open>issues = 2\<close>, \<open>content_items_out = 3\<close>, \<open>ft_tokens = 22\<close>.
\<close>

theorem rebuilt_counts:
  assumes "rebuilt_ci = PDict kv" "map_of kv (PStr ''id'') = Some (PStr i)"
    and "2 \<le> length (str_split CHR ''-'' i)"
    and "map_of kv (PStr ''ft'') = map_option PStr ft"
  shows "(\<exists>counts. counts_for_rebuilt rebuilt_ci include_np passim = Inr counts
      \<and> map_of counts ''issues'' = Some (PStr (str_join ''-'' (butlast (str_split CHR ''-'' i))))
      \<and> i = str_join ''-'' (butlast (str_split CHR ''-'' i)) @ ''-'' @ last (str_split CHR ''-'' i)
      \<and> CHR ''-'' \<notin> set (last (str_split CHR ''-'' i))
      \<and> map_of counts ''content_items_out'' = Some (PInt 1)
      \<and> map_of counts ''year'' = Some (PStr (str_split CHR ''-'' i ! 1))
      \<and> (''np_id'' \<in> fst ` set counts \<longleftrightarrow> include_np)
      \<and> (''ft_tokens'' \<in> fst ` set counts \<longleftrightarrow> \<not> passim)
      \<and> (\<not> passim \<longrightarrow>
            map_of counts ''ft_tokens''
            = Some (PInt (case ft of None \<Rightarrow> 0 | Some t \<Rightarrow> int (length (str_split_ws t))))))
    \<and> snd (compute_stats_in_rebuilt_bag [[gdl_article_1, gdl_article_2], [gdl_article_3]]
              [] True False None)
        = Inr [[(''np_id'', PStr ''GDL''), (''year'', PStr ''1950''), (''issues'', PInt 2),
                (''content_items_out'', PInt 3), (''ft_tokens'', PInt 22)]]"
proof -
  have example: "snd (compute_stats_in_rebuilt_bag [[gdl_article_1, gdl_article_2], [gdl_article_3]]
              [] True False None)
        = Inr [[(''np_id'', PStr ''GDL''), (''year'', PStr ''1950''), (''issues'', PInt 2),
                (''content_items_out'', PInt 3), (''ft_tokens'', PInt 22)]]"
    by code_simp
  have join: "i = str_join ''-'' (butlast (str_split CHR ''-'' i)) @ ''-'' @ last (str_split CHR ''-'' i)"
    using str_join_butlast [OF assms(3), of "''-''"] str_join_split [of "CHR ''-''" i] by simp
  have last: "CHR ''-'' \<notin> set (last (str_split CHR ''-'' i))"
    by (rule str_split_parts_no_sep [of _ _ i]) simp
  have gid: "getitem rebuilt_ci ''id'' = Inr (PStr i)"
    using assms(1,2) by simp
  have idx: "py_index (str_split CHR ''-'' i) 0 = Inr (str_split CHR ''-'' i ! 0)"
    "py_index (str_split CHR ''-'' i) 1 = Inr (str_split CHR ''-'' i ! 1)"
    using assms(3) by (simp_all add: py_index_def)
  have ft: "then_do (py_in ''ft'' rebuilt_ci) (\<lambda>has_ft.
          then_do
            (if has_ft then
               then_do (getitem rebuilt_ci ''ft'') (\<lambda>ft.
               then_do (py_split_ws ft) (\<lambda>tokens.
               Inr (int (length tokens))))
             else Inr 0) f)
        = f (case ft of None \<Rightarrow> 0 | Some t \<Rightarrow> int (length (str_split_ws t)))" for f
  proof (cases ft)
    case None
    then show ?thesis using assms(1,4) by (simp add: py_in_dict_absent del: py_in.simps)
  next
    case (Some t)
    then show ?thesis using assms(1,4) by (simp add: py_in_dict_present del: py_in.simps)
  qed
  have "\<exists>counts. counts_for_rebuilt rebuilt_ci include_np passim = Inr counts
      \<and> map_of counts ''issues'' = Some (PStr (str_join ''-'' (butlast (str_split CHR ''-'' i))))
      \<and> map_of counts ''content_items_out'' = Some (PInt 1)
      \<and> map_of counts ''year'' = Some (PStr (str_split CHR ''-'' i ! 1))
      \<and> (''np_id'' \<in> fst ` set counts \<longleftrightarrow> include_np)
      \<and> (''ft_tokens'' \<in> fst ` set counts \<longleftrightarrow> \<not> passim)
      \<and> (\<not> passim \<longrightarrow>
            map_of counts ''ft_tokens''
            = Some (PInt (case ft of None \<Rightarrow> 0 | Some t \<Rightarrow> int (length (str_split_ws t)))))"
    unfolding counts_for_rebuilt_def Let_def
    using gid idx
    by (cases include_np; cases passim) (simp_all add: ft dict_update_def)
  then show ?thesis using join last example by blast
qed

theorem rebuilt_counts_witness:
  "\<exists>counts. counts_for_rebuilt gdl_article_1 True False = Inr counts
      \<and> map_of counts ''issues'' = Some (PStr ''GDL-1950-01-01-a'')
      \<and> map_of counts ''content_items_out'' = Some (PInt 1)
      \<and> map_of counts ''year'' = Some (PStr ''1950'')
      \<and> map_of counts ''ft_tokens'' = Some (PInt 10)"
proof -
  let ?i = "''GDL-1950-01-01-a-i0001''"
  let ?t = "''le conseil a tenu sa seance hier soir a Geneve''"
  let ?kv = "[(PStr ''id'', PStr ?i), (PStr ''ft'', PStr ?t)]"
  have h1: "gdl_article_1 = PDict ?kv" by (simp add: gdl_article_1_def rebuilt_article_def)
  have h2: "map_of ?kv (PStr ''id'') = Some (PStr ?i)" by simp
  have h3: "2 \<le> length (str_split CHR ''-'' ?i)" by code_simp
  have h4: "map_of ?kv (PStr ''ft'') = map_option PStr (Some ?t)" by simp
  have v1: "str_join ''-'' (butlast (str_split CHR ''-'' ?i)) = ''GDL-1950-01-01-a''"
    by code_simp
  have v2: "str_split CHR ''-'' ?i ! 1 = ''1950''" by code_simp
  have v3: "int (length (str_split_ws ?t)) = 10" by code_simp
  obtain counts where c: "counts_for_rebuilt gdl_article_1 True False = Inr counts"
    "map_of counts ''issues'' = Some (PStr (str_join ''-'' (butlast (str_split CHR ''-'' ?i))))"
    "map_of counts ''content_items_out'' = Some (PInt 1)"
    "map_of counts ''year'' = Some (PStr (str_split CHR ''-'' ?i ! 1))"
    "map_of counts ''ft_tokens'' = Some (PInt (int (length (str_split_ws ?t))))"
    using rebuilt_counts [OF h1 h2 h3 h4, of True False] by force
  show ?thesis
    using c unfolding v1 v2 v3 by blast
qed



section \<open>Properties of grouped aggregation\<close>

lemma map_all_list_all2: "map_all f xs = Inr ys \<Longrightarrow> list_all2 (\<lambda>x y. f x = Inr y) xs ys"
  by (induction xs arbitrary: ys) (auto simp: then_do_eq_Inr)

lemma map_of_keyed:
  "map_of (map (\<lambda>k. (k, f k)) ks) k = (if k \<in> set ks then Some (f k) else None)"
  by (induction ks) auto

lemma aggregate_column_value:
  assumes "aggregate_column fn by col df = Inr s" "k \<in> set (group_keys by (concat df))"
  shows "map_of s k = Some (agg_value fn col (group_rows by k (concat df)))"
proof (cases fn)
  case Sum
  then have "s = map (\<lambda>k. (k, PInt (sum_list (map (\<lambda>r. int_of (cell r col))
      (group_rows by k (concat df)))))) (group_keys by (concat df))"
    using assms(1) by (simp add: series_sum_eq comp_def)
  then show ?thesis using assms(2) Sum by (simp add: map_of_keyed)
next
  case Tunique
  then obtain t where t: "tunique by col df = Inr t" "s = map (\<lambda>(k, n). (k, PInt n)) t"
    using assms(1) by (auto simp: then_do_eq_Inr)
  then have "t = map (\<lambda>k. (k, distinct_count (map (\<lambda>r. cell r col)
      (group_rows by k (concat df))))) (group_keys by (concat df))"
    by (simp add: tunique_eq finalize_series_groupby split: if_splits)
  then have "s = map (\<lambda>k. (k, PInt (distinct_count (map (\<lambda>r. cell r col)
      (group_rows by k (concat df)))))) (group_keys by (concat df))"
    using t(2) by (simp add: comp_def)
  then show ?thesis using assms(2) Tunique by (simp add: map_of_keyed)
next
  case ListOf
  then have "s = map (\<lambda>k. (k, PList (map (\<lambda>r. cell r col)
      (group_rows by k (concat df))))) (group_keys by (concat df))"
    using assms(1) by (simp add: series_list_eq series_groupby_def comp_def)
  then show ?thesis using assms(2) ListOf by (simp add: map_of_keyed)
qed

lemma set_first_keys: "set (first_keys by rows) = set (group_keys by rows)"
  by (simp add: first_keys_def group_keys_def)

lemma distinct_first_keys [simp]: "distinct (first_keys by rows)"
  by (simp add: first_keys_def)

lemma set_result_keys: "set (result_keys spec by rows) = set (group_keys by rows)"
  by (simp add: result_keys_def set_first_keys)

lemma distinct_result_keys [simp]: "distinct (result_keys spec by rows)"
  by (simp add: result_keys_def)


lemma groupby_agg_Inr:
  assumes "groupby_agg by spec df = Inr g"
  shows "g = map (\<lambda>k. (k, map (\<lambda>(col, fn). (col, agg_value fn col (group_rows by k (concat df))))
                          spec))
               (result_keys spec by (concat df))"
proof -
  obtain columns where
    cols: "map_all (\<lambda>(col, fn). then_do (aggregate_column fn by col df) (\<lambda>s. Inr (col, s))) spec
             = Inr columns"
    and g: "g = map (\<lambda>k. (k, map (\<lambda>(col, s). (col, case map_of s k of Some v \<Rightarrow> v | None \<Rightarrow> PNaN))
                              columns))
                 (result_keys spec by (concat df))"
    using assms by (auto simp: groupby_agg_def then_do_eq_Inr split: if_splits)
  have rel: "list_all2 (\<lambda>x y. (case x of (col, fn) \<Rightarrow>
        then_do (aggregate_column fn by col df) (\<lambda>s. Inr (col, s))) = Inr y) spec columns"
    using cols by (rule map_all_list_all2)
  have row: "map (\<lambda>(col, s). (col, case map_of s k of Some v \<Rightarrow> v | None \<Rightarrow> PNaN)) columns
      = map (\<lambda>(col, fn). (col, agg_value fn col (group_rows by k (concat df)))) spec"
    if k: "k \<in> set (group_keys by (concat df))" for k
    using rel
  proof (induction spec columns rule: list_all2_induct)
    case Nil
    then show ?case by simp
  next
    case (Cons x xs y ys)
    obtain col fn where x: "x = (col, fn)" by (cases x)
    then obtain s where s: "aggregate_column fn by col df = Inr s" "y = (col, s)"
      using Cons(1) by (auto simp: then_do_eq_Inr)
    have "map_of s k = Some (agg_value fn col (group_rows by k (concat df)))"
      using s(1) k by (rule aggregate_column_value)
    then show ?case using Cons(3) x s(2) by simp
  qed
  show ?thesis unfolding g using row by (simp add: set_result_keys)
qed



section \<open>Rows, keys and frames\<close>

lemma cell_layout: "c \<in> set cols \<Longrightarrow> cell (map (\<lambda>c. (c, cell r c)) cols) c = cell r c"
  by (simp add: cell_def [of "map (\<lambda>c. (c, cell r c)) cols"] map_of_keyed)

lemma row_key_layout:
  "set by \<subseteq> set cols \<Longrightarrow> row_key by (map (\<lambda>c. (c, cell r c)) cols) = row_key by r"
proof -
  assume sub: "set by \<subseteq> set cols"
  have "map (\<lambda>c. key_cell (cell (map (\<lambda>c. (c, cell r c)) cols) c)) by
      = map (\<lambda>c. key_cell (cell r c)) by"
    using sub by (intro map_cong) (auto simp: cell_layout)
  then show ?thesis by (simp only: row_key_def)
qed

lemma concat_records_frame:
  "concat (records_frame cols bag) = map (\<lambda>r. map (\<lambda>c. (c, cell r c)) cols) (concat bag)"
  by (simp add: records_frame_def data_frame_def [abs_def] map_concat)

lemma row_keys_records_frame:
  "set by \<subseteq> set cols \<Longrightarrow>
   row_key by ` set (concat (records_frame cols bag)) = row_key by ` set (concat bag)"
  by (simp add: concat_records_frame image_image row_key_layout del: set_concat)

lemma cell_update: "cell (AList.update col v r) c = (if c = col then v else cell r c)"
  by (simp add: cell_def update_conv')

lemma row_key_update: "col \<notin> set by \<Longrightarrow> row_key by (AList.update col v r) = row_key by r"
proof -
  assume "col \<notin> set by"
  then have "map (\<lambda>c. key_cell (cell (AList.update col v r) c)) by
      = map (\<lambda>c. key_cell (cell r c)) by"
    by (intro map_cong) (auto simp: cell_update)
  then show ?thesis by (simp only: row_key_def)
qed

lemma explode_row_keys:
  assumes "col \<notin> set by"
  shows "row_key by ` set (explode_row col r) = {row_key by r}"
proof (cases "cell r col")
  case (PList xs)
  then show ?thesis
    using assms by (cases xs) (auto simp: explode_row_def row_key_update)
qed (simp_all add: explode_row_def)

lemma row_keys_explode:
  assumes "col \<notin> set by"
  shows "row_key by ` set (concat (explode col df)) = row_key by ` set (concat df)"
proof -
  have "row_key by ` set (concat (map (explode_row col) p)) = row_key by ` set p" for p
    using explode_row_keys [OF assms] by (induction p) (simp_all add: image_Un)
  then show ?thesis
    by (induction df) (simp_all add: explode_def image_Un)
qed

lemma row_keys_apply_column:
  assumes "col \<notin> set by"
  shows "row_key by ` set (concat (apply_column col f df)) = row_key by ` set (concat df)"
proof -
  have "concat (apply_column col f df) = map (\<lambda>r. AList.update col (f (cell r col)) r) (concat df)"
    by (simp add: apply_column_def map_concat)
  then show ?thesis
    using assms by (simp add: image_image row_key_update del: set_concat)
qed

lemma those_length: "those xs = Some ys \<Longrightarrow> length ys = length xs"
  by (induction xs arbitrary: ys) (auto split: option.splits)

lemma those_map_Some: "those (map Some xs) = Some xs"
  by (induction xs) simp_all

lemma key_cell_key_val [simp]: "key_cell (key_val x) = Some x"
  by (cases x) simp_all

lemma row_key_length: "row_key by r = Some k \<Longrightarrow> length k = length by"
  by (auto simp: row_key_def dest: those_length)

lemma cell_zip:
  assumes "distinct by" "length vals = length by" "i < length by"
  shows "cell (zip by vals @ row) (by ! i) = vals ! i"
proof -
  have "map_of (zip by vals) (by ! i) = Some (vals ! i)"
    using assms by (intro map_of_zip_nth) simp_all
  then show ?thesis by (simp add: cell_def)
qed

lemma row_key_reset:
  assumes "distinct by" "length k = length by"
  shows "row_key by (zip by (map key_val k) @ row) = Some k"
proof -
  have "map (\<lambda>c. key_cell (cell (zip by (map key_val k) @ row) c)) by = map Some k"
  proof (rule nth_equalityI)
    show "length (map (\<lambda>c. key_cell (cell (zip by (map key_val k) @ row) c)) by)
        = length (map Some k)"
      using assms(2) by simp
  next
    fix i assume "i < length (map (\<lambda>c. key_cell (cell (zip by (map key_val k) @ row) c)) by)"
    then have i: "i < length by" by simp
    have "cell (zip by (map key_val k) @ row) (by ! i) = map key_val k ! i"
      using assms i by (intro cell_zip) simp_all
    then show "map (\<lambda>c. key_cell (cell (zip by (map key_val k) @ row) c)) by ! i = map Some k ! i"
      using i assms(2) by simp
  qed
  then show ?thesis by (simp only: row_key_def those_map_Some)
qed

lemma group_keys_length: "k \<in> set (group_keys by rows) \<Longrightarrow> length k = length by"
  by (auto simp: set_group_keys dest: row_key_length)

lemma result_keys_length: "k \<in> set (result_keys spec by rows) \<Longrightarrow> length k = length by"
  by (simp add: set_result_keys group_keys_length)



lemma map_all_append:
  "map_all f (xs @ ys) = then_do (map_all f xs) (\<lambda>a. then_do (map_all f ys) (\<lambda>b. Inr (a @ b)))"
proof (induction xs)
  case Nil
  then show ?case by (cases "map_all f ys") simp_all
next
  case (Cons x xs)
  show ?case
  proof (cases "f x")
    case (Inl e)
    then show ?thesis by simp
  next
    case (Inr y)
    then show ?thesis
      using Cons by (cases "map_all f xs"; cases "map_all f ys") simp_all
  qed
qed

lemma bag_map_concat: "bag_map f bag = Inr ys \<Longrightarrow> map_all f (concat bag) = Inr (concat ys)"
  unfolding bag_map_def
proof (induction bag arbitrary: ys)
  case Nil
  then show ?case by simp
next
  case (Cons p bag)
  then obtain q qs where q: "map_all f p = Inr q" "map_all (map_all f) bag = Inr qs" "ys = q # qs"
    by (auto simp: then_do_eq_Inr)
  then have "map_all f (concat bag) = Inr (concat qs)" using Cons.IH by simp
  then show ?case using q by (simp add: map_all_append)
qed


section \<open>The cast to the declared dtypes\<close>

lemma group_rows_layout:
  assumes "set by \<subseteq> set cols"
  shows "group_rows by k (map (\<lambda>r. map (\<lambda>c. (c, cell r c)) cols) rows)
         = map (\<lambda>r. map (\<lambda>c. (c, cell r c)) cols) (group_rows by k rows)"
  by (simp add: group_rows_def filter_map comp_def row_key_layout [OF assms])

lemma agg_value_layout:
  assumes "col \<in> set cols"
  shows "agg_value fn col (map (\<lambda>r. map (\<lambda>c. (c, cell r c)) cols) rows) = agg_value fn col rows"
  by (cases fn) (simp_all add: comp_def cell_layout [OF assms])

lemma data_frame_column:
  "c \<in> set cols \<Longrightarrow> map (\<lambda>r. cell r c) (data_frame cols part) = map (\<lambda>r. cell r c) part"
  by (simp add: data_frame_def comp_def cell_layout)

lemma str_column_strings: "list_all is_str vs \<Longrightarrow> str_column vs = vs"
proof -
  assume a: "list_all is_str vs"
  have m: "\<not> is_missing v" "PStr (py_str v) = v" if "v \<in> set vs" for v
    using a that by (cases v; auto simp: list_all_iff)+
  have "\<not> list_ex is_missing vs" using m(1) by (auto simp: list_ex_iff)
  then show ?thesis
    unfolding str_column_def Let_def using m by (simp add: map_idI)
qed

lemma cast_column_strings:
  "(t = DStr \<Longrightarrow> list_all is_str vs) \<Longrightarrow> cast_column t vs = vs"
  by (cases t) (simp_all add: str_column_strings)

lemma astype_strings:
  assumes "\<forall>r \<in> set part. \<forall>c. (c, DStr) \<in> set dtypes \<longrightarrow> is_str (cell r c)"
  shows "astype dtypes (data_frame (map fst dtypes) part) = data_frame (map fst dtypes) part"
proof -
  let ?cols = "map fst dtypes"
  let ?frame = "data_frame ?cols part"
  have col: "map (\<lambda>r. cell r c) ?frame = map (\<lambda>r. cell r c) part" if "c \<in> set ?cols" for c
    using that by (rule data_frame_column)
  have len: "length ?frame = length part" by (simp add: data_frame_def)
  have cast: "cast_column t (map (\<lambda>r. cell r c) ?frame) = map (\<lambda>r. cell r c) part"
    if ct: "(c, t) \<in> set dtypes" for c t
  proof -
    have c: "c \<in> set ?cols" using ct by force
    have "list_all is_str (map (\<lambda>r. cell r c) part)" if "t = DStr"
      using assms ct that by (auto simp: list_all_iff)
    then show ?thesis unfolding col [OF c] by (intro cast_column_strings) simp
  qed
  have row: "map (\<lambda>(c, t). (c, cast_column t (map (\<lambda>r. cell r c) ?frame) ! j)) dtypes
      = map (\<lambda>c. (c, cell (part ! j) c)) ?cols" if j: "j < length part" for j
  proof -
    have "map (\<lambda>(c, t). (c, cast_column t (map (\<lambda>r. cell r c) ?frame) ! j)) dtypes
        = map (\<lambda>(c, t). (c, cell (part ! j) c)) dtypes"
      using cast j by (intro map_cong) auto
    also have "\<dots> = map (\<lambda>c. (c, cell (part ! j) c)) ?cols"
      by (simp add: comp_def split_def)
    finally show ?thesis .
  qed
  have "astype dtypes ?frame = map (\<lambda>j. map (\<lambda>c. (c, cell (part ! j) c)) ?cols) [0..<length part]"
    unfolding astype_def len by (rule map_cong) (simp_all add: row)
  also have "\<dots> = map (\<lambda>r. map (\<lambda>c. (c, cell r c)) ?cols) (map (\<lambda>j. part ! j) [0..<length part])"
    by (simp add: comp_def)
  also have "\<dots> = ?frame" by (simp add: map_nth data_frame_def)
  finally show ?thesis .
qed

lemma to_dataframe_strings:
  assumes "\<forall>r \<in> set (concat bag). \<forall>c. (c, DStr) \<in> set meta \<longrightarrow> is_str (cell r c)"
  shows "to_dataframe meta bag = records_frame (map fst meta) bag"
proof -
  have "astype meta (data_frame (map fst meta) part) = data_frame (map fst meta) part"
    if "part \<in> set bag" for part
    using assms that by (intro astype_strings) auto
  then show ?thesis by (simp add: to_dataframe_def records_frame_def)
qed


lemma map_of_zip_other: "c \<notin> set by \<Longrightarrow> map_of (zip by vals @ row) c = map_of row c"
proof -
  assume "c \<notin> set by"
  then have "c \<notin> fst ` set (zip by vals)" by (auto dest: set_zip_leftD)
  then have "map_of (zip by vals) c = None" by (simp add: map_of_eq_None_iff)
  then show ?thesis by (simp add: map_add_def)
qed

lemma map_of_spec:
  assumes "distinct (map fst spec)" "(col, fn) \<in> set spec"
  shows "map_of (map (\<lambda>(c, f). (c, h c f)) spec) col = Some (h col fn)"
proof -
  have "distinct (map fst (map (\<lambda>(c, f). (c, h c f)) spec))"
    using assms(1) by (simp add: comp_def split_def)
  moreover have "(col, h col fn) \<in> set (map (\<lambda>(c, f). (c, h c f)) spec)"
    using assms(2) by force
  ultimately show ?thesis by (rule map_of_is_SomeI)
qed


lemma length_astype [simp]: "length (astype dtypes part) = length part"
  by (simp add: astype_def)

lemma length_str_column [simp]: "length (str_column vs) = length vs"
  by (simp add: str_column_def Let_def)

lemma str_column_nth: "j < length vs \<Longrightarrow> str_cell (vs ! j) (str_column vs ! j)"
  using nth_mem [of j vs] by (auto simp: str_column_def str_cell_def Let_def list_all_iff)

lemma cell_astype:
  assumes "distinct (map fst dtypes)" "(c, t) \<in> set dtypes" "j < length part"
  shows "cell (astype dtypes part ! j) c = cast_column t (map (\<lambda>r. cell r c) part) ! j"
proof -
  have "map_of (map (\<lambda>(c, t). (c, cast_column t (map (\<lambda>r. cell r c) part) ! j)) dtypes) c
      = Some (cast_column t (map (\<lambda>r. cell r c) part) ! j)"
    using assms(1,2) by (rule map_of_spec)
  then show ?thesis using assms(3) by (simp add: astype_def cell_def)
qed

lemma cell_astype_str:
  assumes "distinct (map fst dtypes)" "(c, DStr) \<in> set dtypes" "j < length part"
  shows "str_cell (cell (part ! j) c) (cell (astype dtypes part ! j) c)"
  using str_column_nth [of j "map (\<lambda>r. cell r c) part"] assms
  by (simp add: cell_astype)



section \<open>Output records account for the rows of the frame\<close>








section \<open>The columns that the extractors fill\<close>

lemma canonical_str_columns:
  "counts_for_canonical_issue raw True = Inr cr \<Longrightarrow>
   is_str (cell cr ''np_id'') \<and> is_str (cell cr ''year'')"
  by (auto simp: counts_for_canonical_issue_def then_do_eq_Inr dict_update_def cell_def)

lemma canonical_int_columns:
  "counts_for_canonical_issue raw include_np_yr = Inr cr \<Longrightarrow>
   is_pint (cell cr ''issues'') \<and> is_pint (cell cr ''pages'') \<and> is_pint (cell cr ''images'')
   \<and> is_pint (cell cr ''content_items_out'')"
  by (cases include_np_yr)
    (auto simp: counts_for_canonical_issue_def then_do_eq_Inr dict_update_def cell_def)

lemma rebuilt_str_columns:
  "counts_for_rebuilt raw include_np passim = Inr cr \<Longrightarrow>
   (include_np \<longrightarrow> is_str (cell cr ''np_id'')) \<and> is_str (cell cr ''year'')
   \<and> is_str (cell cr ''issues'')"
  by (cases include_np; cases passim)
    (auto simp: counts_for_rebuilt_def then_do_eq_Inr dict_update_def cell_def Let_def)

lemma rebuilt_int_columns:
  "counts_for_rebuilt raw include_np passim = Inr cr \<Longrightarrow>
   is_pint (cell cr ''content_items_out'') \<and> (\<not> passim \<longrightarrow> is_pint (cell cr ''ft_tokens''))"
  by (cases include_np; cases passim)
    (auto simp: counts_for_rebuilt_def then_do_eq_Inr dict_update_def cell_def Let_def)

lemma entities_str_columns:
  "entities_counts raw = Inr cr \<Longrightarrow>
   is_str (cell cr ''np_id'') \<and> is_str (cell cr ''year'') \<and> is_str (cell cr ''issues'')"
  by (auto simp: entities_counts_def then_do_eq_Inr cell_def)

lemma entities_int_columns:
  "entities_counts raw = Inr cr \<Longrightarrow>
   is_pint (cell cr ''content_items_out'') \<and> is_pint (cell cr ''ne_mentions'')"
  by (auto simp: entities_counts_def then_do_eq_Inr cell_def)


lemma langident_int_columns:
  "langident_counts raw = Inr cr \<Longrightarrow>
   is_pint (cell cr ''content_items_out'') \<and> is_pint (cell cr ''images'')"
  by (auto simp: langident_counts_def then_do_eq_Inr cell_def)

lemma solr_int_columns:
  "solr_text_counts raw = Inr cr \<Longrightarrow> is_pint (cell cr ''content_items_out'')"
  by (auto simp: solr_text_counts_def then_do_eq_Inr cell_def)

lemma extracted_rows:
  assumes "bag_map extract bag = Inr counts" "cr \<in> set (concat counts)"
  shows "\<exists>raw \<in> set (concat bag). extract raw = Inr cr"
  using map_all_Inr_set_rev [OF bag_map_concat [OF assms(1)] assms(2)] .





section \<open>The rows that the pipelines account for\<close>










lemma rebuilt_result:
  assumes "snd (compute_stats_in_rebuilt_bag bag key include_np passim client) = Inr out"
  shows "\<exists>counts g. bag_map (\<lambda>rf. counts_for_rebuilt rf include_np passim) bag = Inr counts
      \<and> groupby_agg (if include_np then [''np_id'', ''year''] else [''year''])
            (if \<not> passim
             then [(''issues'', Tunique), (''content_items_out'', Sum), (''ft_tokens'', Sum)]
             else [(''issues'', Tunique), (''content_items_out'', Sum)])
            (records_frame
               ((if include_np then [''np_id''] else [])
                  @ [''year'', ''issues'', ''content_items_out'']
                  @ (if \<not> passim then [''ft_tokens''] else []))
               counts) = Inr g
      \<and> out = to_bag_dict (if include_np then reset_index [''np_id'', ''year''] g else g)"
proof -
  let ?meta = "(if include_np then [(''np_id'', DStr)] else [])
                 @ [(''year'', DStr), (''issues'', DStr), (''content_items_out'', DInt)]
                 @ (if \<not> passim then [(''ft_tokens'', DInt)] else [])"
  obtain counts g where r: "bag_map (\<lambda>rf. counts_for_rebuilt rf include_np passim) bag = Inr counts"
    "groupby_agg (if include_np then [''np_id'', ''year''] else [''year''])
       (if \<not> passim
        then [(''issues'', Tunique), (''content_items_out'', Sum), (''ft_tokens'', Sum)]
        else [(''issues'', Tunique), (''content_items_out'', Sum)])
       (to_dataframe ?meta counts) = Inr g"
    "out = to_bag_dict (if include_np then reset_index [''np_id'', ''year''] g else g)"
    using assms by (auto simp: compute_stats_in_rebuilt_bag_def Let_def then_do_eq_Inr)
  have "\<forall>cr \<in> set (concat counts). \<forall>c. (c, DStr) \<in> set ?meta \<longrightarrow> is_str (cell cr c)"
  proof
    fix cr assume "cr \<in> set (concat counts)"
    then obtain raw where "counts_for_rebuilt raw include_np passim = Inr cr"
      using extracted_rows [OF r(1)] by blast
    then show "\<forall>c. (c, DStr) \<in> set ?meta \<longrightarrow> is_str (cell cr c)"
      using rebuilt_str_columns by (auto split: if_splits)
  qed
  then have "to_dataframe ?meta counts = records_frame (map fst ?meta) counts"
    by (rule to_dataframe_strings)
  moreover have "map fst ?meta = (if include_np then [''np_id''] else [])
                  @ [''year'', ''issues'', ''content_items_out'']
                  @ (if \<not> passim then [''ft_tokens''] else [])"
    by simp
  ultimately show ?thesis using r by metis
qed








lemma concat_explode: "concat (explode col df) = concat (map (explode_row col) (concat df))"
  by (induction df) (simp_all add: explode_def)

lemma concat_apply_column:
  "concat (apply_column col f df) = map (\<lambda>r. AList.update col (f (cell r col)) r) (concat df)"
  by (simp add: apply_column_def map_concat)










lemma length_data_frame [simp]: "length (data_frame cols part) = length part"
  by (simp add: data_frame_def)






section \<open>The language-identification pipeline\<close>







lemma aggregate_column_total:
  assumes "fn = Tunique \<Longrightarrow> grouped_hashable by col (concat df)"
  shows "\<exists>s. aggregate_column fn by col df = Inr s"
  using assms by (cases fn) (simp_all add: tunique_eq finalize_series_groupby)

lemma aggregate_columns_total:
  assumes "\<forall>(col, fn) \<in> set spec. fn = Tunique \<longrightarrow> grouped_hashable by col (concat df)"
  shows "\<exists>columns. map_all (\<lambda>(col, fn). then_do (aggregate_column fn by col df)
      (\<lambda>s. Inr (col, s))) spec = Inr columns"
  using assms
proof (induction spec)
  case Nil
  then show ?case by simp
next
  case (Cons x spec)
  obtain col fn where x: "x = (col, fn)" by (cases x)
  have "fn = Tunique \<Longrightarrow> grouped_hashable by col (concat df)"
    using Cons.prems x by simp
  then obtain s where s: "aggregate_column fn by col df = Inr s"
    using aggregate_column_total [of fn "by" col df] by blast
  have "\<forall>(col, fn) \<in> set spec. fn = Tunique \<longrightarrow> grouped_hashable by col (concat df)"
    using Cons.prems by simp
  then obtain columns where c: "map_all (\<lambda>(col, fn). then_do (aggregate_column fn by col df)
      (\<lambda>s. Inr (col, s))) spec = Inr columns"
    using Cons.IH by blast
  show ?case using x s c by simp
qed

lemma groupby_agg_total:
  assumes hk: "\<forall>r \<in> set (concat df). \<forall>c \<in> set by. py_hashable (cell r c)"
    and hc: "\<forall>(col, fn) \<in> set spec. fn = Tunique \<longrightarrow> grouped_hashable by col (concat df)"
  shows "\<exists>g. groupby_agg by spec df = Inr g"
proof -
  have "\<not> list_ex (\<lambda>r. list_ex (\<lambda>c. \<not> py_hashable (cell r c)) by) (concat df)"
    using hk by (simp add: list_ex_iff del: set_concat)
  then show ?thesis
    using aggregate_columns_total [OF hc] by (auto simp: groupby_agg_def)
qed


lemma is_str_hashable: "is_str v \<Longrightarrow> py_hashable v"
  by (cases v) simp_all





lemma langident_counts_wf:
  assumes "ci = PDict kv" "map_of kv (PStr ''id'') = Some (PStr i)"
    and "2 \<le> length (str_split CHR ''-'' i)"
    and "map_of kv (PStr ''tp'') = Some tp" "map_of kv (PStr ''lg'') = Some lg"
  shows "langident_counts ci
      = Inr [(''np_id'', PStr (str_split CHR ''-'' i ! 0)),
             (''year'', PStr (str_split CHR ''-'' i ! 1)),
             (''issues'', PStr (str_join ''-'' (butlast (str_split CHR ''-'' i)))),
             (''content_items_out'', PInt 1),
             (''images'', PInt (if tp = PStr ''img'' then 1 else 0)),
             (''lang_fd'', if lg = PNone then PStr ''None'' else lg)]"
proof -
  have gid: "getitem ci ''id'' = Inr (PStr i)" using assms(1,2) by simp
  have c0: "id_component ci 0 = Inr (str_split CHR ''-'' i ! 0)"
    using gid assms(3) by (intro id_component_wf) simp_all
  have c1: "id_component ci 1 = Inr (str_split CHR ''-'' i ! 1)"
    using gid assms(3) by (intro id_component_wf) simp_all
  have iss: "issue_id ci = Inr (str_join ''-'' (butlast (str_split CHR ''-'' i)))"
    using gid by (simp add: issue_id_def)
  have tp: "getitem ci ''tp'' = Inr tp" and lg: "getitem ci ''lg'' = Inr lg"
    using assms(1,4,5) by simp_all
  show ?thesis
    unfolding langident_counts_def using c0 c1 iss tp lg by simp
qed


section \<open>The pipelines return\<close>

text \<open>
  Grouping and aggregating raise only for an unhashable cell in a key column or in a
  column reduced by \<open>tunique\<close>.  So every pipeline but the language-identification
  pipeline returns as soon as its extractor returns for every raw record.
\<close>

lemma groupby_agg_hashable_total:
  assumes cells: "\<forall>r \<in> set (concat df). \<forall>c \<in> set hs. py_hashable (cell r c)"
    and keycols: "set by \<subseteq> set hs"
    and spec: "\<forall>(col, fn) \<in> set spec. fn = Tunique \<longrightarrow> col \<in> set hs"
  shows "\<exists>g. groupby_agg by spec df = Inr g"
proof (rule groupby_agg_total)
  show "\<forall>r \<in> set (concat df). \<forall>c \<in> set by. py_hashable (cell r c)"
    using cells keycols by blast
  have "grouped_hashable by col (concat df)" if "col \<in> set hs" for col
    unfolding grouped_hashable_def list_all_iff using cells that by blast
  then show "\<forall>(col, fn) \<in> set spec. fn = Tunique \<longrightarrow> grouped_hashable by col (concat df)"
    using spec by blast
qed

lemma records_frame_cells:
  assumes "\<forall>cr \<in> set (concat counts). \<forall>c \<in> set hs. P (cell cr c)" "set hs \<subseteq> set cols"
  shows "\<forall>r \<in> set (concat (records_frame cols counts)). \<forall>c \<in> set hs. P (cell r c)"
proof (intro ballI)
  fix r c assume r: "r \<in> set (concat (records_frame cols counts))" and c: "c \<in> set hs"
  obtain cr where cr: "cr \<in> set (concat counts)" "r = map (\<lambda>c. (c, cell cr c)) cols"
    using r unfolding concat_records_frame by auto
  have eq: "cell r c = cell cr c"
    unfolding cr(2) using c assms(2) by (intro cell_layout) blast
  have "P (cell cr c)" using assms(1) cr(1) c by blast
  then show "P (cell r c)" by (simp only: eq)
qed

lemma canonical_returns:
  assumes "bag_map (\<lambda>i. counts_for_canonical_issue i True) bag = Inr counts"
  shows "\<exists>out. snd (compute_stats_in_canonical_bag bag client) = Inr out"
proof -
  let ?meta = "[(''np_id'', DStr), (''year'', DStr), (''issues'', DInt), (''pages'', DInt),
                (''images'', DInt), (''content_items_out'', DInt)]"
  let ?by = "[''np_id'', ''year'']"
  have strs: "\<forall>cr \<in> set (concat counts). \<forall>c \<in> set ?by. is_str (cell cr c)"
  proof
    fix cr assume "cr \<in> set (concat counts)"
    then obtain raw where "counts_for_canonical_issue raw True = Inr cr"
      using extracted_rows [OF assms] by blast
    then show "\<forall>c \<in> set ?by. is_str (cell cr c)"
      using canonical_str_columns by auto
  qed
  then have fr: "to_dataframe ?meta counts = records_frame (map fst ?meta) counts"
    by (intro to_dataframe_strings) auto
  have hash: "\<forall>cr \<in> set (concat counts). \<forall>c \<in> set ?by. py_hashable (cell cr c)"
    using strs is_str_hashable by blast
  have "\<forall>r \<in> set (concat (records_frame (map fst ?meta) counts)). \<forall>c \<in> set ?by.
      py_hashable (cell r c)"
    by (rule records_frame_cells [where P = py_hashable, OF hash]) simp
  then have "\<exists>g. groupby_agg ?by
      [(''issues'', Sum), (''pages'', Sum), (''content_items_out'', Sum), (''images'', Sum)]
      (records_frame (map fst ?meta) counts) = Inr g"
    by (rule groupby_agg_hashable_total) simp_all
  then obtain g where "groupby_agg ?by
      [(''issues'', Sum), (''pages'', Sum), (''content_items_out'', Sum), (''images'', Sum)]
      (records_frame (map fst ?meta) counts) = Inr g"
    by blast
  then show ?thesis
    using assms fr by (simp add: compute_stats_in_canonical_bag_def Let_def)
qed

lemma rebuilt_returns:
  assumes "bag_map (\<lambda>rf. counts_for_rebuilt rf include_np passim) bag = Inr counts"
  shows "\<exists>out. snd (compute_stats_in_rebuilt_bag bag key include_np passim client) = Inr out"
proof -
  let ?meta = "(if include_np then [(''np_id'', DStr)] else [])
                 @ [(''year'', DStr), (''issues'', DStr), (''content_items_out'', DInt)]
                 @ (if \<not> passim then [(''ft_tokens'', DInt)] else [])"
  let ?by = "if include_np then [''np_id'', ''year''] else [''year'']"
  let ?hs = "(if include_np then [''np_id''] else []) @ [''year'', ''issues'']"
  let ?spec = "if \<not> passim
      then [(''issues'', Tunique), (''content_items_out'', Sum), (''ft_tokens'', Sum)]
      else [(''issues'', Tunique), (''content_items_out'', Sum)]"
  have strs: "\<forall>cr \<in> set (concat counts). \<forall>c \<in> set ?hs. is_str (cell cr c)"
  proof
    fix cr assume "cr \<in> set (concat counts)"
    then obtain raw where "counts_for_rebuilt raw include_np passim = Inr cr"
      using extracted_rows [OF assms] by blast
    then show "\<forall>c \<in> set ?hs. is_str (cell cr c)"
      using rebuilt_str_columns by (auto split: if_splits)
  qed
  then have fr: "to_dataframe ?meta counts = records_frame (map fst ?meta) counts"
    by (intro to_dataframe_strings) (auto split: if_splits)
  have hash: "\<forall>cr \<in> set (concat counts). \<forall>c \<in> set ?hs. py_hashable (cell cr c)"
    using strs is_str_hashable by blast
  have sub: "set ?hs \<subseteq> set (map fst ?meta)" by (cases include_np; cases passim; simp)
  have "\<forall>r \<in> set (concat (records_frame (map fst ?meta) counts)). \<forall>c \<in> set ?hs.
      py_hashable (cell r c)"
    using sub by (rule records_frame_cells [where P = py_hashable, OF hash])
  moreover have "set ?by \<subseteq> set ?hs" by simp
  moreover have "\<forall>(col, fn) \<in> set ?spec. fn = Tunique \<longrightarrow> col \<in> set ?hs" by simp
  ultimately have "\<exists>g. groupby_agg ?by ?spec (records_frame (map fst ?meta) counts) = Inr g"
    by (rule groupby_agg_hashable_total)
  then obtain g where "groupby_agg ?by ?spec (records_frame (map fst ?meta) counts) = Inr g"
    by blast
  then show ?thesis
    using assms fr by (simp add: compute_stats_in_rebuilt_bag_def Let_def)
qed


lemma str_cell_hashable: "str_cell v w \<Longrightarrow> py_hashable w"
  by (auto simp: str_cell_def split: if_splits)

lemma astype_str_hashable:
  assumes "distinct (map fst meta)" "(c, DStr) \<in> set meta" "r \<in> set (astype meta part)"
  shows "py_hashable (cell r c)"
proof -
  obtain j where j: "j < length part" "r = astype meta part ! j"
    using assms(3) by (auto simp: in_set_conv_nth)
  have "str_cell (cell (part ! j) c) (cell (astype meta part ! j) c)"
    using assms(1,2) j(1) by (rule cell_astype_str)
  then show ?thesis unfolding j(2) by (rule str_cell_hashable)
qed

lemma solr_returns:
  assumes "bag_map solr_text_counts bag = Inr counts"
  shows "\<exists>out. snd (compute_stats_in_solr_text_bag bag client) = Inr out"
proof -
  let ?meta = "[(''np_id'', DStr), (''year'', DStr), (''issues'', DStr),
                (''content_items_out'', DInt)]"
  let ?by = "[''np_id'', ''year'']"
  let ?hs = "[''np_id'', ''year'', ''issues'']"
  let ?spec = "[(''issues'', Tunique), (''content_items_out'', Sum)]"
  have "\<forall>r \<in> set (concat (to_dataframe ?meta counts)). \<forall>c \<in> set ?hs. py_hashable (cell r c)"
  proof (intro ballI)
    fix r c assume r: "r \<in> set (concat (to_dataframe ?meta counts))" and c: "c \<in> set ?hs"
    obtain part where "r \<in> set (astype ?meta part)"
      using r by (auto simp: to_dataframe_def)
    moreover have "(c, DStr) \<in> set ?meta" using c by auto
    ultimately show "py_hashable (cell r c)"
      by (intro astype_str_hashable [where meta = ?meta]) simp_all
  qed
  moreover have "set ?by \<subseteq> set ?hs" by simp
  moreover have "\<forall>(col, fn) \<in> set ?spec. fn = Tunique \<longrightarrow> col \<in> set ?hs" by simp
  ultimately have "\<exists>g. groupby_agg ?by ?spec (to_dataframe ?meta counts) = Inr g"
    by (rule groupby_agg_hashable_total)
  then obtain g where "groupby_agg ?by ?spec (to_dataframe ?meta counts) = Inr g" by blast
  then show ?thesis
    using assms by (simp add: compute_stats_in_solr_text_bag_def Let_def)
qed

lemma py_sorted_hashable:
  assumes "py_sorted xs = Inr ys" "list_all py_hashable xs"
  shows "list_all py_hashable ys"
proof -
  have "list_all py_hashable (map PStr zs)" for zs by (simp add: list_all_iff)
  moreover have "list_all py_hashable (sort_key int_of xs)"
    using assms(2) by (simp add: list_all_iff)
  ultimately show ?thesis
    using assms by (auto simp: py_sorted_def split: if_splits)
qed

lemma py_set_Inr_hashable: "py_set xs = Inr ys \<Longrightarrow> list_all py_hashable ys"
  by (auto simp: py_set_def list_all_iff py_hashable_norm split: if_splits)

lemma entities_list_column:
  "entities_counts raw = Inr cr \<Longrightarrow>
   \<exists>xs. cell cr ''ne_entities'' = PList xs \<and> list_all py_hashable xs"
  by (auto simp: entities_counts_def then_do_eq_Inr cell_def
      dest!: py_set_Inr_hashable py_sorted_hashable)

lemma explode_row_cell:
  assumes "r \<in> set (explode_row col x)"
  shows "cell r c = (if c = col then cell r col else cell x c)"
  using assms by (auto simp: explode_row_def cell_update split: pyval.splits list.splits)

lemma explode_row_element:
  assumes "r \<in> set (explode_row col x)" "cell x col = PList xs"
  shows "cell r col = PNaN \<or> cell r col \<in> set xs"
  using assms by (cases xs) (auto simp: explode_row_def cell_update)


lemma entities_returns:
  assumes "bag_map entities_counts bag = Inr counts"
  shows "\<exists>out. snd (compute_stats_in_entities_bag bag client) = Inr out"
proof -
  let ?meta = "[(''np_id'', DStr), (''year'', DStr), (''issues'', DStr),
                (''content_items_out'', DInt), (''ne_mentions'', DInt), (''ne_entities'', DObject)]"
  let ?cols = "[''np_id'', ''year'', ''issues'', ''content_items_out'', ''ne_mentions'',
                ''ne_entities'']"
  let ?by = "[''np_id'', ''year'']"
  let ?hs = "[''np_id'', ''year'', ''issues'', ''ne_entities'']"
  let ?spec = "[(''issues'', Tunique), (''content_items_out'', Sum), (''ne_mentions'', Sum),
                (''ne_entities'', Tunique)]"
  let ?lay = "\<lambda>r. map (\<lambda>c. (c, cell r c)) ?cols"
  let ?wrap = "\<lambda>r. AList.update ''ne_entities'' (wrap_list (cell r ''ne_entities'')) r"
  let ?df = "explode ''ne_entities'' (apply_column ''ne_entities'' wrap_list
      (records_frame ?cols counts))"
  have strs: "\<forall>cr \<in> set (concat counts). \<forall>c. (c, DStr) \<in> set ?meta \<longrightarrow> is_str (cell cr c)"
  proof
    fix cr assume "cr \<in> set (concat counts)"
    then obtain raw where "entities_counts raw = Inr cr"
      using extracted_rows [OF assms] by blast
    then show "\<forall>c. (c, DStr) \<in> set ?meta \<longrightarrow> is_str (cell cr c)"
      using entities_str_columns by auto
  qed
  then have "to_dataframe ?meta counts = records_frame (map fst ?meta) counts"
    by (rule to_dataframe_strings)
  then have fr: "to_dataframe ?meta counts = records_frame ?cols counts" by simp
  have rows: "concat ?df
      = concat (map (\<lambda>cr. explode_row ''ne_entities'' (?wrap (?lay cr))) (concat counts))"
    unfolding concat_explode concat_apply_column concat_records_frame map_map comp_def ..
  have "\<forall>r \<in> set (concat ?df). \<forall>c \<in> set ?hs. py_hashable (cell r c)"
  proof (intro ballI)
    fix r c assume r: "r \<in> set (concat ?df)" and c: "c \<in> set ?hs"
    obtain cr where cr: "cr \<in> set (concat counts)"
      "r \<in> set (explode_row ''ne_entities'' (?wrap (?lay cr)))"
      using r unfolding rows by auto
    obtain raw where raw: "entities_counts raw = Inr cr"
      using extracted_rows [OF assms cr(1)] by blast
    obtain xs where xs: "cell cr ''ne_entities'' = PList xs" "list_all py_hashable xs"
      using entities_list_column [OF raw] by blast
    have lay: "cell (?lay cr) d = cell cr d" if "d \<in> set ?cols" for d
      using that by (rule cell_layout)
    have wrapped: "cell (?wrap (?lay cr)) ''ne_entities'' = PList xs"
      using lay [of "''ne_entities''"] xs(1) by (simp add: cell_update wrap_list_def)
    show "py_hashable (cell r c)"
    proof (cases "c = ''ne_entities''")
      case True
      have "cell r ''ne_entities'' = PNaN \<or> cell r ''ne_entities'' \<in> set xs"
        using cr(2) wrapped by (rule explode_row_element)
      then show ?thesis using True xs(2) by (auto simp: list_all_iff)
    next
      case False
      then have d: "c \<in> set ?cols" "(c, DStr) \<in> set ?meta" using c by auto
      have "cell r c = cell (?wrap (?lay cr)) c"
        using explode_row_cell [OF cr(2), of c] False by simp
      also have "\<dots> = cell (?lay cr) c" using False by (simp only: cell_update if_False)
      also have "\<dots> = cell cr c" using d(1) by (rule lay)
      finally show ?thesis using strs cr(1) d(2) is_str_hashable by metis
    qed
  qed
  moreover have "set ?by \<subseteq> set ?hs" by simp
  moreover have "\<forall>(col, fn) \<in> set ?spec. fn = Tunique \<longrightarrow> col \<in> set ?hs" by simp
  ultimately have "\<exists>g. groupby_agg ?by ?spec ?df = Inr g"
    by (rule groupby_agg_hashable_total)
  then obtain g where "groupby_agg ?by ?spec ?df = Inr g" by blast
  then show ?thesis
    using assms fr by (simp add: compute_stats_in_entities_bag_def Let_def)
qed


section \<open>The fields of a Statistics Record\<close>

text \<open>
  A frame laid out from Count Records, grouped, aggregated and returned with its index
  reset: every record of the result belongs to one group of the Count Records, and each
  of its aggregated fields is the reduction of that field over the Count Records of the
  group.
\<close>

lemma statistics_record_fields:
  assumes agg: "groupby_agg by spec (records_frame cols counts) = Inr g"
    and keycols: "distinct by" "set by \<subseteq> set cols"
    and spec: "distinct (map fst spec)"
    and rec: "rec \<in> set (to_bag_dict (reset_index by g))"
  shows "\<exists>k. k \<in> set (group_keys by (concat counts)) \<and> row_key by rec = Some k
      \<and> (\<forall>col fn. (col, fn) \<in> set spec \<and> col \<in> set cols \<and> col \<notin> set by \<longrightarrow>
            cell rec col = agg_value fn col (group_rows by k (concat counts)))"
proof -
  let ?layout = "\<lambda>r. map (\<lambda>c. (c, cell r c)) cols"
  let ?rows = "concat (records_frame cols counts)"
  have rows: "?rows = map ?layout (concat counts)" by (rule concat_records_frame)
  have g: "g = map (\<lambda>k. (k, map (\<lambda>(col, fn). (col, agg_value fn col (group_rows by k ?rows)))
                             spec)) (result_keys spec by ?rows)"
    using agg by (rule groupby_agg_Inr)
  have "group_keys by ?rows = group_keys by (concat counts)"
    unfolding group_keys_def
    by (rule sort_remdups_cong) (simp add: set_map_filter rows row_key_layout [OF keycols(2)])
  then have keys: "set (result_keys spec by ?rows) = set (group_keys by (concat counts))"
    by (simp add: set_result_keys)
  have gr: "group_rows by k ?rows = map ?layout (group_rows by k (concat counts))" for k
    unfolding rows by (rule group_rows_layout [OF keycols(2)])
  obtain k where k: "k \<in> set (result_keys spec by ?rows)"
    "rec = zip by (map key_val k)
            @ map (\<lambda>(col, fn). (col, agg_value fn col (group_rows by k ?rows))) spec"
    using rec unfolding g by (auto simp: to_bag_dict_def reset_index_def)
  have len: "length k = length by" using k(1) by (rule result_keys_length)
  have key: "row_key by rec = Some k"
    unfolding k(2) using keycols(1) len by (rule row_key_reset)
  have field: "cell rec col = agg_value fn col (group_rows by k (concat counts))"
    if f: "(col, fn) \<in> set spec" "col \<in> set cols" "col \<notin> set by" for col fn
  proof -
    have "map_of rec col
        = map_of (map (\<lambda>(col, fn). (col, agg_value fn col (group_rows by k ?rows))) spec) col"
      unfolding k(2) using f(3) by (rule map_of_zip_other)
    also have "\<dots> = Some (agg_value fn col (group_rows by k ?rows))"
      using spec f(1) by (rule map_of_spec)
    finally have "cell rec col = agg_value fn col (group_rows by k ?rows)"
      by (simp add: cell_def)
    then show ?thesis unfolding gr by (simp only: agg_value_layout [OF f(2)])
  qed
  show ?thesis using k(1) key field keys by blast
qed


text \<open>
  In the rebuilt pipeline with the title included, the issues of a Statistics Record are
  the distinct issue identifiers of the Count Records of its group, and the other two
  fields are sums.
\<close>

lemma rebuilt_statistics:
  assumes "snd (compute_stats_in_rebuilt_bag bag key True False client) = Inr out" "rec \<in> set out"
  shows "\<exists>counts k. bag_map (\<lambda>rf. counts_for_rebuilt rf True False) bag = Inr counts
      \<and> row_key [''np_id'', ''year''] rec = Some k
      \<and> cell rec ''issues''
          = PInt (distinct_count (map (\<lambda>cr. cell cr ''issues'')
              (group_rows [''np_id'', ''year''] k (concat counts))))
      \<and> (\<forall>col \<in> {''content_items_out'', ''ft_tokens''}.
            cell rec col
            = PInt (sum_list (map (\<lambda>cr. int_of (cell cr col))
                (group_rows [''np_id'', ''year''] k (concat counts)))))"
proof -
  let ?by = "[''np_id'', ''year'']"
  let ?cols = "[''np_id'', ''year'', ''issues'', ''content_items_out'', ''ft_tokens'']"
  let ?spec = "[(''issues'', Tunique), (''content_items_out'', Sum), (''ft_tokens'', Sum)]"
  obtain counts g where r: "bag_map (\<lambda>rf. counts_for_rebuilt rf True False) bag = Inr counts"
    "groupby_agg ?by ?spec (records_frame ?cols counts) = Inr g"
    "out = to_bag_dict (reset_index ?by g)"
    using rebuilt_result [OF assms(1)] by auto
  have d1: "distinct ?by" and d2: "set ?by \<subseteq> set ?cols" and d3: "distinct (map fst ?spec)"
    by simp_all
  have mem: "rec \<in> set (to_bag_dict (reset_index ?by g))" using assms(2) r(3) by simp
  obtain k where k: "row_key ?by rec = Some k"
    and fld: "\<forall>col fn. (col, fn) \<in> set ?spec \<and> col \<in> set ?cols \<and> col \<notin> set ?by \<longrightarrow>
        cell rec col = agg_value fn col (group_rows ?by k (concat counts))"
    using statistics_record_fields [OF r(2) d1 d2 d3 mem] by blast
  have iss: "cell rec ''issues''
      = PInt (distinct_count (map (\<lambda>cr. cell cr ''issues'') (group_rows ?by k (concat counts))))"
  proof -
    have "(''issues'', Tunique) \<in> set ?spec" "''issues'' \<in> set ?cols" "''issues'' \<notin> set ?by"
      by simp_all
    then have "cell rec ''issues'' = agg_value Tunique ''issues'' (group_rows ?by k (concat counts))"
      using fld by blast
    then show ?thesis by simp
  qed
  have "cell rec col
      = PInt (sum_list (map (\<lambda>cr. int_of (cell cr col)) (group_rows ?by k (concat counts))))"
    if c: "col \<in> {''content_items_out'', ''ft_tokens''}" for col
  proof -
    have "(col, Sum) \<in> set ?spec" "col \<in> set ?cols" "col \<notin> set ?by"
      using c by auto
    then have "cell rec col = agg_value Sum col (group_rows ?by k (concat counts))"
      using fld by blast
    then show ?thesis by simp
  qed
  then show ?thesis using r(1) k iss by blast
qed


section \<open>The frequency count of the languages\<close>



section \<open>Every raw record in exactly one group\<close>






end
